theory Spec2Isabelle
  imports Main "HOL-Library.Word"
begin

section \<open>Data model of \<^verbatim>\<open>person_registry.py\<close>\<close>

text \<open>
  \<^verbatim>\<open>Person\<close> objects are mutable and shared by reference between the registry's three
  lists and the driver, and \<^verbatim>\<open>Person\<close> defines no \<^verbatim>\<open>__eq__\<close>: \<^verbatim>\<open>list.remove\<close>
  compares by object identity. The model therefore keeps an explicit store from object
  references to \<^verbatim>\<open>Person\<close> values; the registry's lists hold references.
\<close>

datatype Statuses = UNASSIGNED | ASSIGNED | WAITING | COMPLETED

text \<open>A reading of \<^verbatim>\<open>datetime.now()\<close>, as an opaque point in time.\<close>
type_synonym datetime = nat

type_synonym UUID = "128 word"

text \<open>The identity of a \<^verbatim>\<open>Person\<close> object.\<close>
type_synonym ref = nat

record Person =
  name :: string
  surname :: string
  email :: string
  processing_time :: int
  assigned_at :: "datetime option"
  registered_at :: "datetime option"
  completed_at :: "datetime option"
  status :: Statuses
  id_no :: UUID

record Registry =
  limit :: int
  assigned_list :: "ref list"
  awaiting_queue :: "ref list"
  completed_list :: "ref list"
  seen_ids :: "UUID set"

text \<open>
  The whole program state: the object store, the one registry, the system clock (the
  sequence of values that successive calls of \<^verbatim>\<open>datetime.now()\<close> return, and how many
  calls were made), and the lines \<^verbatim>\<open>logger.info\<close> has emitted.
\<close>

record world =
  heap :: "ref \<Rightarrow> Person"
  registry :: Registry
  now_readings :: "nat \<Rightarrow> datetime"
  now_calls :: nat
  logged :: "string list"

datatype error = ValueError

section \<open>Person\<close>

text \<open>
  \<^verbatim>\<open>Person.__init__\<close>, with the value \<^verbatim>\<open>uuid4()\<close> returns as a parameter.
\<close>
definition Person_init :: "string \<Rightarrow> string \<Rightarrow> string \<Rightarrow> int \<Rightarrow> UUID \<Rightarrow> Person" where
  "Person_init n s e t u =
     \<lparr>name = n, surname = s, email = e, processing_time = t, assigned_at = None,
      registered_at = None, completed_at = None, status = UNASSIGNED, id_no = u\<rparr>"

definition datetime_now :: "world \<Rightarrow> datetime \<times> world" where
  "datetime_now w = (now_readings w (now_calls w), w\<lparr>now_calls := Suc (now_calls w)\<rparr>)"

definition logger_info :: "string \<Rightarrow> world \<Rightarrow> world" where
  "logger_info msg w = w\<lparr>logged := logged w @ [msg]\<rparr>"

text \<open>\<^verbatim>\<open>Person.register\<close>\<close>
definition register :: "ref \<Rightarrow> world \<Rightarrow> world" where
  "register self w =
     (case datetime_now w of (t, w1) \<Rightarrow>
        w1\<lparr>heap := (heap w1)(self := (heap w1 self)\<lparr>registered_at := Some t, status := WAITING\<rparr>)\<rparr>)"

text \<open>\<^verbatim>\<open>Person.assign\<close>\<close>
definition assign :: "ref \<Rightarrow> world \<Rightarrow> world" where
  "assign self w =
     (case datetime_now w of (t, w1) \<Rightarrow>
        w1\<lparr>heap := (heap w1)(self := (heap w1 self)\<lparr>assigned_at := Some t, status := ASSIGNED\<rparr>)\<rparr>)"

section \<open>Registry\<close>

text \<open>\<^verbatim>\<open>Registry.__init__\<close>\<close>
definition Registry_init :: "int \<Rightarrow> Registry" where
  "Registry_init lim =
     \<lparr>limit = lim, assigned_list = [], awaiting_queue = [], completed_list = [], seen_ids = {}\<rparr>"

definition available_tickets :: "Registry \<Rightarrow> int" where
  "available_tickets r = limit r - int (length (assigned_list r))"

definition append_assigned :: "ref \<Rightarrow> world \<Rightarrow> world" where
  "append_assigned p w =
     w\<lparr>registry := (registry w)\<lparr>assigned_list := assigned_list (registry w) @ [p]\<rparr>\<rparr>"

definition append_awaiting :: "ref \<Rightarrow> world \<Rightarrow> world" where
  "append_awaiting p w =
     w\<lparr>registry := (registry w)\<lparr>awaiting_queue := awaiting_queue (registry w) @ [p]\<rparr>\<rparr>"

definition append_completed :: "ref \<Rightarrow> world \<Rightarrow> world" where
  "append_completed p w =
     w\<lparr>registry := (registry w)\<lparr>completed_list := completed_list (registry w) @ [p]\<rparr>\<rparr>"

text \<open>\<^verbatim>\<open>Registry.add\<close>\<close>
definition add :: "ref \<Rightarrow> world \<Rightarrow> world" where
  "add person w =
     (if id_no (heap w person) \<in> seen_ids (registry w) then
        logger_info ''You cannot add the same person twice'' w
      else
        let w1 = w\<lparr>registry := (registry w)\<lparr>seen_ids :=
                     insert (id_no (heap w person)) (seen_ids (registry w))\<rparr>\<rparr>;
            w2 = (if registered_at (heap w1 person) = None then register person w1 else w1)
        in if available_tickets (registry w2) > 0
           then append_assigned person (assign person w2)
           else append_awaiting person w2)"

text \<open>
  \<^verbatim>\<open>Registry.promote\<close>: the \<^verbatim>\<open>while\<close> loop, one iteration per recursive call.
  \<^verbatim>\<open>pop(0)\<close> is only reached on a non-empty queue.
\<close>
function promote :: "world \<Rightarrow> world" where
  "promote w =
     (if awaiting_queue (registry w) \<noteq> [] \<and> available_tickets (registry w) > 0 then
        let next_person = hd (awaiting_queue (registry w));
            w1 = w\<lparr>registry := (registry w)\<lparr>awaiting_queue := tl (awaiting_queue (registry w))\<rparr>\<rparr>
        in promote (append_assigned next_person (assign next_person w1))
      else w)"
  by pat_completeness auto
termination
  by (relation "measure (\<lambda>w. length (awaiting_queue (registry w)))")
     (auto simp: append_assigned_def assign_def datetime_now_def)

declare promote.simps [simp del]

text \<open>
  \<^verbatim>\<open>Registry.complete\<close>. The two attribute writes come first; \<^verbatim>\<open>list.remove\<close> raises
  \<^verbatim>\<open>ValueError\<close> when the object is not in the list, and the exception leaves the
  writes made so far in place, so the error carries the state at the raise.
\<close>
definition complete :: "ref \<Rightarrow> world \<Rightarrow> (error \<times> world) + world" where
  "complete person w =
     (case datetime_now w of (t, w1) \<Rightarrow>
        let w2 = w1\<lparr>heap := (heap w1)(person := (heap w1 person)\<lparr>completed_at := Some t\<rparr>)\<rparr>;
            w3 = w2\<lparr>heap := (heap w2)(person := (heap w2 person)\<lparr>status := COMPLETED\<rparr>)\<rparr>
        in if person \<in> set (assigned_list (registry w3)) then
             let w4 = w3\<lparr>registry := (registry w3)\<lparr>assigned_list :=
                          remove1 person (assigned_list (registry w3))\<rparr>\<rparr>;
                 w5 = w4\<lparr>registry := (registry w4)\<lparr>seen_ids :=
                          seen_ids (registry w4) - {id_no (heap w4 person)}\<rparr>\<rparr>
             in Inr (promote (append_completed person w5))
           else Inl (ValueError, w3))"

text \<open>
  The state \<^verbatim>\<open>complete\<close> has built when it calls \<^verbatim>\<open>promote\<close>: the clock read once,
  the entity stamped and marked, taken off the active list, its identifier discarded,
  and the entity appended to the completed log.
\<close>
definition released :: "ref \<Rightarrow> world \<Rightarrow> world" where
  "released p w =
     w\<lparr>now_calls := Suc (now_calls w),
       heap := (heap w)(p := (heap w p)\<lparr>completed_at := Some (now_readings w (now_calls w)),
                                        status := COMPLETED\<rparr>),
       registry := (registry w)\<lparr>assigned_list := remove1 p (assigned_list (registry w)),
                                seen_ids := seen_ids (registry w) - {id_no (heap w p)},
                                completed_list := completed_list (registry w) @ [p]\<rparr>\<rparr>"

text \<open>The state \<^verbatim>\<open>complete\<close> leaves behind when \<^verbatim>\<open>list.remove\<close> raises.\<close>
definition stamped :: "ref \<Rightarrow> world \<Rightarrow> world" where
  "stamped p w =
     w\<lparr>now_calls := Suc (now_calls w),
       heap := (heap w)(p := (heap w p)\<lparr>completed_at := Some (now_readings w (now_calls w)),
                                        status := COMPLETED\<rparr>)\<rparr>"

section \<open>Reachable states and their invariants\<close>

text \<open>
  The number of entities one call of \<^verbatim>\<open>promote\<close> moves: as many as wait, up to the
  free capacity.
\<close>
definition promote_count :: "world \<Rightarrow> nat" where
  "promote_count w =
     min (length (awaiting_queue (registry w))) (nat (available_tickets (registry w)))"

definition live_ids :: "world \<Rightarrow> UUID list" where
  "live_ids w =
     map (\<lambda>r. id_no (heap w r)) (assigned_list (registry w) @ awaiting_queue (registry w))"

definition ids_inv :: "world \<Rightarrow> bool" where
  "ids_inv w = (distinct (live_ids w) \<and> seen_ids (registry w) = set (live_ids w))"

definition capacity_inv :: "world \<Rightarrow> bool" where
  "capacity_inv w =
     (0 \<le> available_tickets (registry w) \<and>
      (awaiting_queue (registry w) = [] \<or> available_tickets (registry w) = 0))"

datatype operation = Add ref | Complete ref | Promote

fun apply_operation :: "operation \<Rightarrow> world \<Rightarrow> world option" where
  "apply_operation (Add p) w = Some (add p w)"
| "apply_operation (Complete p) w =
     (if p \<in> set (assigned_list (registry w))
      then (case complete p w of Inl e \<Rightarrow> None | Inr w' \<Rightarrow> Some w')
      else None)"
| "apply_operation Promote w = Some (promote w)"

fun perform :: "operation list \<Rightarrow> world \<Rightarrow> world option" where
  "perform [] w = Some w"
| "perform (operation # rest) w =
     (case apply_operation operation w of None \<Rightarrow> None | Some w' \<Rightarrow> perform rest w')"

section \<open>PipelineOrchestrator\<close>

text \<open>\<^verbatim>\<open>str\<close> of an integer, as the f-strings of \<^verbatim>\<open>report_detailed\<close> format it.\<close>
definition digit :: "nat \<Rightarrow> char" where
  "digit d = ''0123456789'' ! d"

function str_nat :: "nat \<Rightarrow> string" where
  "str_nat n = (if n < 10 then [digit n] else str_nat (n div 10) @ [digit (n mod 10)])"
  by pat_completeness auto
termination
  by (relation "measure id") auto

declare str_nat.simps [simp del]

definition str_int :: "int \<Rightarrow> string" where
  "str_int i = (if i < 0 then CHR ''-'' # str_nat (nat (- i)) else str_nat (nat i))"

text \<open>\<^verbatim>\<open>Registry.report_detailed\<close>\<close>
definition report_detailed :: "int \<Rightarrow> int \<Rightarrow> world \<Rightarrow> world" where
  "report_detailed added finished w =
     logger_info
       (''Users Added: '' @ str_int added @ '' | '' @
        ''Users Finished: '' @ str_int finished @ '' | '' @
        ''Users Assigned: '' @ str_int (int (length (assigned_list (registry w)))) @ ''/'' @
           str_int (limit (registry w)) @ '' | '' @
        ''Users Awaiting: '' @ str_int (int (length (awaiting_queue (registry w)))) @ '' | '' @
        ''Users Completed total: '' @ str_int (int (length (completed_list (registry w)))))
       w"

text \<open>
  The body of the first \<^verbatim>\<open>for\<close> loop of \<^verbatim>\<open>run\<close>:
  \<^verbatim>\<open>person.processing_time -= 1\<close>.
\<close>
definition decrement :: "ref \<Rightarrow> world \<Rightarrow> world" where
  "decrement person w =
     w\<lparr>heap := (heap w)(person :=
          (heap w person)\<lparr>processing_time := processing_time (heap w person) - 1\<rparr>)\<rparr>"

text \<open>The three \<^verbatim>\<open>for\<close> loops of \<^verbatim>\<open>run\<close>, each over a list fixed before the loop.\<close>
fun decrement_each :: "ref list \<Rightarrow> world \<Rightarrow> world" where
  "decrement_each [] w = w"
| "decrement_each (person # rest) w = decrement_each rest (decrement person w)"

fun complete_each :: "ref list \<Rightarrow> world \<Rightarrow> (error \<times> world) + world" where
  "complete_each [] w = Inr w"
| "complete_each (person # rest) w =
     (case complete person w of Inl e \<Rightarrow> Inl e | Inr w' \<Rightarrow> complete_each rest w')"

fun add_each :: "ref list \<Rightarrow> world \<Rightarrow> world" where
  "add_each [] w = w"
| "add_each (user # rest) w = add_each rest (add user w)"

text \<open>
  One iteration of the \<^verbatim>\<open>while\<close> loop of \<^verbatim>\<open>PipelineOrchestrator.run\<close>, after the
  decrement of \<^verbatim>\<open>tick_interval\<close>. The batch \<^verbatim>\<open>generator.generate()\<close> returns is random,
  so it is a parameter: the list \<open>users\<close> of the objects it constructed, taken as
  present in the store. \<^verbatim>\<open>sleep\<close> only passes time and is left out.
\<close>
definition tick :: "ref list \<Rightarrow> world \<Rightarrow> (error \<times> world) + world" where
  "tick users w =
     (let w1 = decrement_each (assigned_list (registry w)) w;
          finished = filter (\<lambda>p. processing_time (heap w1 p) \<le> 0) (assigned_list (registry w1))
      in case complete_each finished w1 of
           Inl e \<Rightarrow> Inl e
         | Inr w2 \<Rightarrow>
             Inr (report_detailed (int (length users)) (int (length finished))
                    (add_each users w2)))"

text \<open>
  The \<^verbatim>\<open>while\<close> loop of \<^verbatim>\<open>run\<close>: \<open>generate n\<close> is the batch the \<open>n\<close>-th call of
  \<^verbatim>\<open>generator.generate()\<close> returns. An exception of \<^verbatim>\<open>complete\<close> is not caught by
  \<^verbatim>\<open>except KeyboardInterrupt\<close> and ends the run. The interrupt itself comes from
  outside the program and is not modelled.
\<close>
function run_loop :: "int \<Rightarrow> (nat \<Rightarrow> ref list) \<Rightarrow> nat \<Rightarrow> world \<Rightarrow> (error \<times> world) + world" where
  "run_loop tick_interval generate n w =
     (if tick_interval > 0 then
        (case tick (generate n) w of
           Inl e \<Rightarrow> Inl e
         | Inr w' \<Rightarrow> run_loop (tick_interval - 1) generate (Suc n) w')
      else Inr w)"
  by pat_completeness auto
termination
  by (relation "measure (\<lambda>(tick_interval, generate, n, w). nat tick_interval)") auto

declare run_loop.simps [simp del]

section \<open>Export of the completed log\<close>

abbreviation CR :: char where "CR \<equiv> CHR 0x0D"
abbreviation LF :: char where "LF \<equiv> CHR 0x0A"
abbreviation QUOTE :: char where "QUOTE \<equiv> CHR 0x22"
abbreviation COMMA :: char where "COMMA \<equiv> CHR 0x2C"

subsection \<open>\<^verbatim>\<open>csv.writer\<close> in its default dialect\<close>

text \<open>
  \<^verbatim>\<open>csv.writer(f, delimiter=',')\<close> is the library's writer in the \<^verbatim>\<open>excel\<close> dialect:
  fields joined by commas, each record ended by CR LF, and minimal quoting, which puts a
  field between double quotes, its own double quotes doubled, exactly when it holds the
  delimiter, the quote character or a character of the line terminator. A record of one
  empty field is written as a pair of quotes.
\<close>
definition needs_quotes :: "string \<Rightarrow> bool" where
  "needs_quotes s = list_ex (\<lambda>c. c = COMMA \<or> c = QUOTE \<or> c = CR \<or> c = LF) s"

fun double_quotes :: "string \<Rightarrow> string" where
  "double_quotes [] = []"
| "double_quotes (c # cs) = (if c = QUOTE then QUOTE # QUOTE # double_quotes cs
                             else c # double_quotes cs)"

definition quoted :: "string \<Rightarrow> string" where
  "quoted s = QUOTE # double_quotes s @ [QUOTE]"

definition csv_field :: "string \<Rightarrow> string" where
  "csv_field s = (if needs_quotes s then quoted s else s)"

fun join_fields :: "string list \<Rightarrow> string" where
  "join_fields [] = []"
| "join_fields [f] = f"
| "join_fields (f # g # fs) = f @ COMMA # join_fields (g # fs)"

definition writerow :: "string list \<Rightarrow> string" where
  "writerow row =
     (if row = [[]] then quoted [] else join_fields (map csv_field row)) @ [CR, LF]"

subsection \<open>\<^verbatim>\<open>Registry.save\<close>\<close>

definition header :: "string list" where
  "header = [''Id_no'', ''Name'', ''Surname'', ''Email'', ''Registered'', ''Assigned'',
             ''Completed'']"

text \<open>
  The seven fields \<^verbatim>\<open>save\<close> writes for one record. \<^verbatim>\<open>str\<close> of a \<^verbatim>\<open>UUID\<close> and
  \<^verbatim>\<open>datetime.isoformat\<close> belong to the standard library and are parameters. A
  \<^verbatim>\<open>datetime\<close> is never false, so \<^verbatim>\<open>x.isoformat() if x else ""\<close> tests for \<^verbatim>\<open>None\<close>.
\<close>
definition timestamp_field :: "(datetime \<Rightarrow> string) \<Rightarrow> datetime option \<Rightarrow> string" where
  "timestamp_field isoformat x = (case x of None \<Rightarrow> [] | Some t \<Rightarrow> isoformat t)"

definition export_row :: "(UUID \<Rightarrow> string) \<Rightarrow> (datetime \<Rightarrow> string) \<Rightarrow> Person \<Rightarrow> string list" where
  "export_row str isoformat record =
     [str (id_no record), name record, surname record, email record,
      timestamp_field isoformat (registered_at record),
      timestamp_field isoformat (assigned_at record),
      timestamp_field isoformat (completed_at record)]"

text \<open>
  The text \<^verbatim>\<open>save\<close> hands to the file, record by record. The file is opened in text
  mode without \<^verbatim>\<open>newline=''\<close>; where the platform's line separator is the line feed,
  the file holds this text unchanged. The special characters of the dialect are ASCII, so
  the encoding of other characters plays no part.
\<close>
definition save :: "(UUID \<Rightarrow> string) \<Rightarrow> (datetime \<Rightarrow> string) \<Rightarrow> world \<Rightarrow> string" where
  "save str isoformat w =
     writerow header @
     concat (map (\<lambda>record. writerow (export_row str isoformat (heap w record)))
               (completed_list (registry w)))"

text \<open>The number of lines of a text: its line feeds.\<close>
definition line_count :: "string \<Rightarrow> nat" where
  "line_count text = length (filter (\<lambda>c. c = LF) text)"

subsection \<open>A reader for the same dialect\<close>

text \<open>
  The repository has no reader. This one follows the state machine of the library's
  \<^verbatim>\<open>csv.reader\<close> for the \<^verbatim>\<open>excel\<close> dialect (not strict) on a file opened with
  \<^verbatim>\<open>newline=''\<close>: a record ends at CR LF, CR or LF outside quotes; inside quotes every
  character but the quote belongs to the field and a doubled quote stands for one.
\<close>
datatype reader_state =
  START_RECORD | AFTER_CR | START_FIELD | IN_FIELD | IN_QUOTED_FIELD | QUOTE_IN_QUOTED_FIELD

record reader =
  reader_mode :: reader_state
  field_read :: string
  row_read :: "string list"
  rows_read :: "string list list"

definition add_char :: "char \<Rightarrow> reader \<Rightarrow> reader" where
  "add_char c rd = rd\<lparr>field_read := field_read rd @ [c]\<rparr>"

definition save_field :: "reader \<Rightarrow> reader" where
  "save_field rd = rd\<lparr>row_read := row_read rd @ [field_read rd], field_read := []\<rparr>"

definition end_record :: "char \<Rightarrow> reader \<Rightarrow> reader" where
  "end_record c rd =
     rd\<lparr>rows_read := rows_read rd @ [row_read rd], row_read := [],
        reader_mode := (if c = CR then AFTER_CR else START_RECORD)\<rparr>"

definition start_field :: "char \<Rightarrow> reader \<Rightarrow> reader" where
  "start_field c rd =
     (if c = CR \<or> c = LF then end_record c (save_field rd)
      else if c = QUOTE then rd\<lparr>reader_mode := IN_QUOTED_FIELD\<rparr>
      else if c = COMMA then (save_field rd)\<lparr>reader_mode := START_FIELD\<rparr>
      else (add_char c rd)\<lparr>reader_mode := IN_FIELD\<rparr>)"

definition start_record :: "char \<Rightarrow> reader \<Rightarrow> reader" where
  "start_record c rd = (if c = CR \<or> c = LF then end_record c rd else start_field c rd)"

definition process_char :: "char \<Rightarrow> reader \<Rightarrow> reader" where
  "process_char c rd =
     (case reader_mode rd of
        START_RECORD \<Rightarrow> start_record c rd
      | AFTER_CR \<Rightarrow> if c = LF then rd\<lparr>reader_mode := START_RECORD\<rparr> else start_record c rd
      | START_FIELD \<Rightarrow> start_field c rd
      | IN_FIELD \<Rightarrow>
          if c = CR \<or> c = LF then end_record c (save_field rd)
          else if c = COMMA then (save_field rd)\<lparr>reader_mode := START_FIELD\<rparr>
          else add_char c rd
      | IN_QUOTED_FIELD \<Rightarrow>
          if c = QUOTE then rd\<lparr>reader_mode := QUOTE_IN_QUOTED_FIELD\<rparr> else add_char c rd
      | QUOTE_IN_QUOTED_FIELD \<Rightarrow>
          if c = QUOTE then (add_char c rd)\<lparr>reader_mode := IN_QUOTED_FIELD\<rparr>
          else if c = COMMA then (save_field rd)\<lparr>reader_mode := START_FIELD\<rparr>
          else if c = CR \<or> c = LF then end_record c (save_field rd)
          else (add_char c rd)\<lparr>reader_mode := IN_FIELD\<rparr>)"

definition finish :: "reader \<Rightarrow> string list list" where
  "finish rd =
     (if reader_mode rd = START_RECORD \<or> reader_mode rd = AFTER_CR then rows_read rd
      else rows_read rd @ [row_read rd @ [field_read rd]])"

definition csv_reader :: "string \<Rightarrow> string list list" where
  "csv_reader text =
     finish (fold process_char text
               \<lparr>reader_mode = START_RECORD, field_read = [], row_read = [], rows_read = []\<rparr>)"

section \<open>Concrete scenarios\<close>

text \<open>
  A store of freshly constructed persons, object \<open>r\<close> with identifier \<open>r\<close> and two
  ticks of work, an empty registry of the given capacity, and a clock that reads
  100, 101, ...
\<close>
definition demo_heap :: "ref \<Rightarrow> Person" where
  "demo_heap r = Person_init ''Anna'' ''Nowak'' ''Anna.Nowak@gmail.com'' 2 (of_nat r)"

definition demo_world :: "int \<Rightarrow> world" where
  "demo_world lim =
     \<lparr>heap = demo_heap, registry = Registry_init lim, now_readings = (\<lambda>k. 100 + k),
      now_calls = 0, logged = []\<rparr>"

text \<open>
  Stand-ins for \<^verbatim>\<open>str\<close> of a \<^verbatim>\<open>UUID\<close> and for \<^verbatim>\<open>isoformat\<close> in the concrete
  scenarios: the number in decimal.
\<close>
definition sample_str :: "UUID \<Rightarrow> string" where
  "sample_str u = str_nat (unat u)"

definition sample_isoformat :: "datetime \<Rightarrow> string" where
  "sample_isoformat t = str_nat t"

text \<open>The scenario's store and registry, with a line feed inside every first name.\<close>
definition two_line_world :: world where
  "two_line_world =
     (demo_world 2)\<lparr>heap := \<lambda>r. (demo_heap r)\<lparr>name := [CHR ''A'', LF, CHR ''B'']\<rparr>\<rparr>"

section \<open>Auxiliary facts\<close>

subsection \<open>What the Person methods leave alone\<close>

lemma assign_frame [simp]:
  "registry (assign p w) = registry w"
  "logged (assign p w) = logged w"
  "now_readings (assign p w) = now_readings w"
  "now_calls (assign p w) = Suc (now_calls w)"
  "id_no (heap (assign p w) r) = id_no (heap w r)"
  "processing_time (heap (assign p w) r) = processing_time (heap w r)"
  "r \<noteq> p \<Longrightarrow> heap (assign p w) r = heap w r"
  "status (heap (assign p w) p) = ASSIGNED"
  "assigned_at (heap (assign p w) p) = Some (now_readings w (now_calls w))"
  by (simp_all add: assign_def datetime_now_def)

lemma register_frame [simp]:
  "registry (register p w) = registry w"
  "logged (register p w) = logged w"
  "now_readings (register p w) = now_readings w"
  "id_no (heap (register p w) r) = id_no (heap w r)"
  "processing_time (heap (register p w) r) = processing_time (heap w r)"
  "r \<noteq> p \<Longrightarrow> heap (register p w) r = heap w r"
  by (simp_all add: register_def datetime_now_def)

lemma append_frame [simp]:
  "heap (append_assigned p w) = heap w"
  "heap (append_awaiting p w) = heap w"
  "heap (append_completed p w) = heap w"
  "logged (append_assigned p w) = logged w"
  "logged (append_awaiting p w) = logged w"
  "logged (append_completed p w) = logged w"
  "now_calls (append_assigned p w) = now_calls w"
  "now_readings (append_assigned p w) = now_readings w"
  by (simp_all add: append_assigned_def append_awaiting_def append_completed_def)

subsection \<open>The promotion loop\<close>

lemma promote_stop:
  "awaiting_queue (registry w) = [] \<or> available_tickets (registry w) \<le> 0 \<Longrightarrow> promote w = w"
  by (subst promote.simps) auto

lemma promote_step:
  assumes "awaiting_queue (registry w) = q # qs" and "0 < available_tickets (registry w)"
  shows "promote w =
     promote (append_assigned q (assign q (w\<lparr>registry := (registry w)\<lparr>awaiting_queue := qs\<rparr>\<rparr>)))"
  using assms by (subst promote.simps) (simp add: Let_def)

lemma promote_count_stop:
  "awaiting_queue (registry w) = [] \<or> available_tickets (registry w) \<le> 0 \<Longrightarrow> promote_count w = 0"
  by (auto simp: promote_count_def)

lemma promote_count_step:
  assumes "awaiting_queue (registry w) = q # qs" and "0 < available_tickets (registry w)"
  shows "promote_count w =
     Suc (promote_count (append_assigned q (assign q (w\<lparr>registry := (registry w)\<lparr>awaiting_queue := qs\<rparr>\<rparr>))))"
  using assms by (simp add: promote_count_def append_assigned_def available_tickets_def)

text \<open>
  An induction rule that follows the loop: a property holds after \<^verbatim>\<open>promote\<close> when it
  holds where the loop stops and each iteration carries it backwards.
\<close>
lemma promote_cases [case_names stop step]:
  assumes stop: "\<And>w. awaiting_queue (registry w) = [] \<or> available_tickets (registry w) \<le> 0 \<Longrightarrow> P w"
    and step: "\<And>w q qs. awaiting_queue (registry w) = q # qs \<Longrightarrow> 0 < available_tickets (registry w) \<Longrightarrow>
       P (append_assigned q (assign q (w\<lparr>registry := (registry w)\<lparr>awaiting_queue := qs\<rparr>\<rparr>))) \<Longrightarrow> P w"
  shows "P w"
proof (induction w rule: promote.induct)
  case (1 w)
  show ?case
  proof (cases "awaiting_queue (registry w)")
    case Nil
    then show ?thesis by (simp add: stop)
  next
    case (Cons q qs)
    show ?thesis
    proof (cases "0 < available_tickets (registry w)")
      case False
      then show ?thesis by (simp add: stop)
    next
      case True
      have "P (append_assigned (hd (awaiting_queue (registry w)))
              (assign (hd (awaiting_queue (registry w)))
                (w\<lparr>registry := (registry w)\<lparr>awaiting_queue := tl (awaiting_queue (registry w))\<rparr>\<rparr>)))"
        using Cons True by (intro "1.IH"[OF _ refl refl]) simp
      then show ?thesis
        using Cons True by (intro step[of w q qs]) simp_all
    qed
  qed
qed

lemma promote_registry:
  "registry (promote w) =
     (registry w)\<lparr>assigned_list :=
                     assigned_list (registry w) @ take (promote_count w) (awaiting_queue (registry w)),
                   awaiting_queue := drop (promote_count w) (awaiting_queue (registry w))\<rparr>"
proof (induction w rule: promote_cases)
  case (stop w)
  then show ?case by (simp add: promote_stop promote_count_stop)
next
  case (step w q qs)
  then show ?case
    by (simp add: promote_step[of w q qs] promote_count_step[of w q qs] append_assigned_def)
qed

lemma promote_frame [simp]:
  "logged (promote w) = logged w"
  "now_readings (promote w) = now_readings w"
  "id_no (heap (promote w) r) = id_no (heap w r)"
  "processing_time (heap (promote w) r) = processing_time (heap w r)"
proof -
  show "logged (promote w) = logged w"
    by (induction w rule: promote_cases) (simp_all add: promote_stop promote_step)
  show "now_readings (promote w) = now_readings w"
    by (induction w rule: promote_cases) (simp_all add: promote_stop promote_step)
  show "id_no (heap (promote w) r) = id_no (heap w r)"
    by (induction w rule: promote_cases) (simp_all add: promote_stop promote_step)
  show "processing_time (heap (promote w) r) = processing_time (heap w r)"
    by (induction w rule: promote_cases) (simp_all add: promote_stop promote_step)
qed

lemma promote_now_calls: "now_calls (promote w) = now_calls w + promote_count w"
proof (induction w rule: promote_cases)
  case (stop w)
  then show ?case by (simp add: promote_stop promote_count_stop)
next
  case (step w q qs)
  then show ?case
    by (simp add: promote_step[of w q qs] promote_count_step[of w q qs])
qed

lemma promote_heap_other:
  "r \<notin> set (take (promote_count w) (awaiting_queue (registry w))) \<Longrightarrow> heap (promote w) r = heap w r"
proof (induction w rule: promote_cases)
  case (stop w)
  then show ?case by (simp add: promote_stop)
next
  case (step w q qs)
  then show ?case
    by (simp add: promote_step[of w q qs] promote_count_step[of w q qs] append_assigned_def)
qed

lemma promote_status:
  "r \<in> set (take (promote_count w) (awaiting_queue (registry w))) \<Longrightarrow>
     status (heap (promote w) r) = ASSIGNED \<and> assigned_at (heap (promote w) r) \<noteq> None"
proof (induction w rule: promote_cases)
  case (stop w)
  then show ?case by (simp add: promote_count_stop)
next
  case (step w q qs)
  let ?w' = "append_assigned q (assign q (w\<lparr>registry := (registry w)\<lparr>awaiting_queue := qs\<rparr>\<rparr>))"
  have aw: "awaiting_queue (registry ?w') = qs"
    by (simp add: append_assigned_def)
  show ?case
  proof (cases "r \<in> set (take (promote_count ?w') qs)")
    case True
    then show ?thesis
      using step.IH by (simp add: promote_step[of w q qs] step.hyps aw)
  next
    case False
    then have "heap (promote ?w') r = heap ?w' r"
      by (intro promote_heap_other) (simp add: aw)
    moreover have "r = q"
      using False step.prems by (simp add: promote_count_step[of w q qs] step.hyps)
    ultimately show ?thesis
      by (simp add: promote_step[of w q qs] step.hyps)
  qed
qed

subsection \<open>Evaluating the scenario\<close>

lemmas scenario_defs = add_def complete_def promote.simps assign_def register_def
  datetime_now_def append_assigned_def append_awaiting_def append_completed_def
  available_tickets_def logger_info_def demo_world_def demo_heap_def Person_init_def
  Registry_init_def Let_def

subsection \<open>Completion\<close>

lemma complete_active:
  "p \<in> set (assigned_list (registry w)) \<Longrightarrow> complete p w = Inr (promote (released p w))"
  by (simp add: complete_def datetime_now_def released_def append_completed_def Let_def)

lemma complete_inactive:
  "p \<notin> set (assigned_list (registry w)) \<Longrightarrow> complete p w = Inl (ValueError, stamped p w)"
  by (simp add: complete_def datetime_now_def stamped_def Let_def)

lemma released_frame [simp]:
  "id_no (heap (released p w) r) = id_no (heap w r)"
  "processing_time (heap (released p w) r) = processing_time (heap w r)"
  "logged (released p w) = logged w"
  "now_readings (released p w) = now_readings w"
  "awaiting_queue (registry (released p w)) = awaiting_queue (registry w)"
  "assigned_list (registry (released p w)) = remove1 p (assigned_list (registry w))"
  "completed_list (registry (released p w)) = completed_list (registry w) @ [p]"
  "seen_ids (registry (released p w)) = seen_ids (registry w) - {id_no (heap w p)}"
  "limit (registry (released p w)) = limit (registry w)"
  by (simp_all add: released_def)

lemma released_available:
  "p \<in> set (assigned_list (registry w)) \<Longrightarrow>
     available_tickets (registry (released p w)) = available_tickets (registry w) + 1"
proof -
  assume "p \<in> set (assigned_list (registry w))"
  then have "length (remove1 p (assigned_list (registry w))) + 1 = length (assigned_list (registry w))"
    using length_pos_if_in_set[of p "assigned_list (registry w)"] by (simp add: length_remove1)
  then have "int (length (remove1 p (assigned_list (registry w)))) + 1 =
      int (length (assigned_list (registry w)))"
    by linarith
  then show ?thesis
    by (simp add: available_tickets_def)
qed

subsection \<open>Admission\<close>

lemma add_frame [simp]:
  "id_no (heap (add p w) r) = id_no (heap w r)"
  "processing_time (heap (add p w) r) = processing_time (heap w r)"
  "now_readings (add p w) = now_readings w"
  "limit (registry (add p w)) = limit (registry w)"
  "completed_list (registry (add p w)) = completed_list (registry w)"
  by (simp_all add: add_def logger_info_def append_assigned_def append_awaiting_def Let_def)

lemma add_fresh_registry:
  assumes "id_no (heap w p) \<notin> seen_ids (registry w)"
  shows "registry (add p w) =
     (if 0 < available_tickets (registry w)
      then (registry w)\<lparr>seen_ids := insert (id_no (heap w p)) (seen_ids (registry w)),
                        assigned_list := assigned_list (registry w) @ [p]\<rparr>
      else (registry w)\<lparr>seen_ids := insert (id_no (heap w p)) (seen_ids (registry w)),
                        awaiting_queue := awaiting_queue (registry w) @ [p]\<rparr>)"
  using assms
  by (simp add: add_def append_assigned_def append_awaiting_def available_tickets_def Let_def)

lemma add_seen_registry:
  "id_no (heap w p) \<in> seen_ids (registry w) \<Longrightarrow> registry (add p w) = registry w"
  by (simp add: add_def logger_info_def)

subsection \<open>The invariants are kept\<close>

lemma promote_limit [simp]: "limit (registry (promote w)) = limit (registry w)"
  by (simp add: promote_registry)

lemma promote_seen [simp]: "seen_ids (registry (promote w)) = seen_ids (registry w)"
  by (simp add: promote_registry)

lemma promote_completed [simp]: "completed_list (registry (promote w)) = completed_list (registry w)"
  by (simp add: promote_registry)

lemma promote_assigned:
  "assigned_list (registry (promote w)) =
     assigned_list (registry w) @ take (promote_count w) (awaiting_queue (registry w))"
  by (simp add: promote_registry)

lemma promote_awaiting:
  "awaiting_queue (registry (promote w)) = drop (promote_count w) (awaiting_queue (registry w))"
  by (simp add: promote_registry)

lemma live_ids_promote: "live_ids (promote w) = live_ids w"
  by (simp add: live_ids_def promote_assigned promote_awaiting flip: map_append)

lemma ids_inv_promote: "ids_inv w \<Longrightarrow> ids_inv (promote w)"
  by (simp add: ids_inv_def live_ids_promote)

lemma ids_inv_add: "ids_inv w \<Longrightarrow> ids_inv (add p w)"
proof (cases "id_no (heap w p) \<in> seen_ids (registry w)")
  case True
  assume "ids_inv w"
  then show ?thesis
    using True by (simp add: ids_inv_def live_ids_def add_seen_registry)
next
  case False
  assume "ids_inv w"
  then show ?thesis
    using False by (auto simp: ids_inv_def live_ids_def add_fresh_registry)
qed

lemma ids_inv_released:
  assumes "ids_inv w" and "p \<in> set (assigned_list (registry w))"
  shows "ids_inv (released p w)"
proof -
  let ?f = "\<lambda>r. id_no (heap w r)"
  let ?xs = "assigned_list (registry w)" and ?ys = "awaiting_queue (registry w)"
  have "distinct (map ?f (?xs @ ?ys))"
    using assms(1) unfolding ids_inv_def live_ids_def by blast
  then have d: "distinct (?xs @ ?ys)" and inj: "inj_on ?f (set (?xs @ ?ys))"
    unfolding distinct_map by blast+
  have seen: "seen_ids (registry w) = ?f ` set (?xs @ ?ys)"
    using assms(1) unfolding ids_inv_def live_ids_def set_map by blast
  have rem: "set (remove1 p ?xs @ ?ys) = set (?xs @ ?ys) - {p}"
    using d assms(2) by auto
  have "distinct (remove1 p ?xs @ ?ys)"
    using d by (auto dest: notin_set_remove1)
  moreover have "inj_on ?f (set (remove1 p ?xs @ ?ys))"
    using inj rem by (auto intro: inj_on_subset)
  moreover have "?f ` set (remove1 p ?xs @ ?ys) = ?f ` set (?xs @ ?ys) - {?f p}"
    unfolding rem using inj assms(2) by (auto simp: inj_on_def)
  ultimately have "distinct (map ?f (remove1 p ?xs @ ?ys))"
    and "seen_ids (registry w) - {?f p} = set (map ?f (remove1 p ?xs @ ?ys))"
    unfolding distinct_map set_map seen by blast+
  then show ?thesis
    unfolding ids_inv_def live_ids_def by (simp del: map_append set_append set_map)
qed

lemma ids_inv_complete:
  assumes "ids_inv w" and "p \<in> set (assigned_list (registry w))" and "complete p w = Inr w'"
  shows "ids_inv w'"
  using assms by (auto simp: complete_active intro: ids_inv_promote ids_inv_released)

lemma capacity_inv_promote:
  "0 \<le> available_tickets (registry w) \<Longrightarrow> capacity_inv (promote w)"
  by (auto simp: capacity_inv_def available_tickets_def promote_registry promote_count_def min_def)

lemma capacity_inv_add: "capacity_inv w \<Longrightarrow> capacity_inv (add p w)"
  by (cases "id_no (heap w p) \<in> seen_ids (registry w)")
     (auto simp: capacity_inv_def add_seen_registry add_fresh_registry available_tickets_def)

lemma capacity_inv_complete:
  assumes "capacity_inv w" and "p \<in> set (assigned_list (registry w))" and "complete p w = Inr w'"
  shows "capacity_inv w'"
proof -
  have "0 \<le> available_tickets (registry (released p w))"
    using assms(1,2) by (simp add: released_available capacity_inv_def)
  then show ?thesis
    using assms(2,3) by (auto simp: complete_active intro: capacity_inv_promote)
qed

lemma apply_operation_limit:
  "apply_operation operation w = Some w' \<Longrightarrow> limit (registry w') = limit (registry w)"
  by (cases operation) (auto simp: complete_active split: if_splits)

lemma apply_operation_ids_inv:
  "apply_operation operation w = Some w' \<Longrightarrow> ids_inv w \<Longrightarrow> ids_inv w'"
  by (cases operation)
     (auto simp: ids_inv_add ids_inv_promote split: if_splits sum.splits intro: ids_inv_complete)

lemma apply_operation_capacity_inv:
  assumes "apply_operation operation w = Some w'" and "capacity_inv w"
  shows "capacity_inv w'"
proof (cases operation)
  case (Add p)
  then show ?thesis using assms by (auto simp: capacity_inv_add)
next
  case (Complete p)
  then show ?thesis
    using assms by (auto split: if_splits sum.splits intro: capacity_inv_complete)
next
  case Promote
  have "0 \<le> available_tickets (registry w)"
    using assms(2) by (simp add: capacity_inv_def)
  then show ?thesis
    using Promote assms(1) by (auto intro: capacity_inv_promote)
qed

lemma perform_limit:
  "perform ops w = Some w' \<Longrightarrow> limit (registry w') = limit (registry w)"
  by (induction ops arbitrary: w) (auto split: option.splits dest: apply_operation_limit)

lemma perform_ids_inv:
  "perform ops w = Some w' \<Longrightarrow> ids_inv w \<Longrightarrow> ids_inv w'"
  by (induction ops arbitrary: w) (auto split: option.splits dest: apply_operation_ids_inv)

lemma perform_capacity_inv:
  "perform ops w = Some w' \<Longrightarrow> capacity_inv w \<Longrightarrow> capacity_inv w'"
  by (induction ops arbitrary: w) (auto split: option.splits dest: apply_operation_capacity_inv)

lemma ids_inv_init: "registry w = Registry_init lim \<Longrightarrow> ids_inv w"
  by (simp add: ids_inv_def live_ids_def Registry_init_def)

lemma capacity_inv_init: "registry w = Registry_init lim \<Longrightarrow> 0 \<le> lim \<Longrightarrow> capacity_inv w"
  by (simp add: capacity_inv_def available_tickets_def Registry_init_def)

subsection \<open>The state after a failed completion\<close>

lemma stamped_frame [simp]:
  "registry (stamped p w) = registry w"
  "logged (stamped p w) = logged w"
  "now_readings (stamped p w) = now_readings w"
  "now_calls (stamped p w) = Suc (now_calls w)"
  "status (heap (stamped p w) p) = COMPLETED"
  "completed_at (heap (stamped p w) p) = Some (now_readings w (now_calls w))"
  "r \<noteq> p \<Longrightarrow> heap (stamped p w) r = heap w r"
  by (simp_all add: stamped_def)

lemma released_heap [simp]:
  "status (heap (released p w) p) = COMPLETED"
  "completed_at (heap (released p w) p) = Some (now_readings w (now_calls w))"
  "r \<noteq> p \<Longrightarrow> heap (released p w) r = heap w r"
  by (simp_all add: released_def)

lemma promote_count_released:
  assumes "p \<in> set (assigned_list (registry w))"
  shows "promote_count (released p w) =
     min (length (awaiting_queue (registry w))) (nat (available_tickets (registry w) + 1))"
  using assms by (simp add: promote_count_def released_available)

subsection \<open>The waiting queue only loses its front and gains at its back\<close>

lemma ids_inv_distinct_awaiting:
  "ids_inv w \<Longrightarrow> distinct (awaiting_queue (registry w))"
  unfolding ids_inv_def live_ids_def by (simp add: distinct_map)

lemma ids_inv_distinct_assigned:
  "ids_inv w \<Longrightarrow> distinct (assigned_list (registry w))"
  unfolding ids_inv_def live_ids_def by (simp add: distinct_map)

lemma ids_inv_id_seen:
  "ids_inv w \<Longrightarrow> p \<in> set (awaiting_queue (registry w)) \<Longrightarrow>
     id_no (heap w p) \<in> seen_ids (registry w)"
  unfolding ids_inv_def live_ids_def by auto

lemma apply_operation_awaiting:
  assumes "apply_operation operation w = Some w'" and "ids_inv w"
  shows "\<exists>k extra. awaiting_queue (registry w') = drop k (awaiting_queue (registry w)) @ extra
           \<and> set extra \<inter> set (awaiting_queue (registry w)) = {}"
proof -
  have found: ?thesis
    if "awaiting_queue (registry w') = drop k (awaiting_queue (registry w)) @ extra"
      and "set extra \<inter> set (awaiting_queue (registry w)) = {}" for k extra
    using that by blast
  show ?thesis
  proof (cases operation)
    case (Add p)
    show ?thesis
    proof (cases "id_no (heap w p) \<in> seen_ids (registry w)")
      case True
      then have "registry w' = registry w"
        using assms(1) Add by (auto simp: add_seen_registry)
      then show ?thesis
        by (intro found[of 0 "[]"]) simp_all
    next
      case False
      then have new: "p \<notin> set (awaiting_queue (registry w))"
        using ids_inv_id_seen[OF assms(2)] by blast
      show ?thesis
      proof (cases "0 < available_tickets (registry w)")
        case True
        then have "awaiting_queue (registry w') = awaiting_queue (registry w)"
          using assms(1) Add False by (auto simp: add_fresh_registry)
        then show ?thesis
          by (intro found[of 0 "[]"]) simp_all
      next
        case full: False
        then have "awaiting_queue (registry w') = awaiting_queue (registry w) @ [p]"
          using assms(1) Add False by (auto simp: add_fresh_registry)
        then show ?thesis
          using new by (intro found[of 0 "[p]"]) simp_all
      qed
    qed
  next
    case (Complete p)
    then have "w' = promote (released p w)"
      using assms(1) by (auto simp: complete_active split: if_splits)
    then show ?thesis
      by (intro found[of "promote_count (released p w)" "[]"]) (simp_all add: promote_awaiting)
  next
    case Promote
    then have "w' = promote w"
      using assms(1) by simp
    then show ?thesis
      by (intro found[of "promote_count w" "[]"]) (simp_all add: promote_awaiting)
  qed
qed

lemma perform_append:
  "perform (xs @ ys) w = (case perform xs w of None \<Rightarrow> None | Some v \<Rightarrow> perform ys v)"
  by (induction xs arbitrary: w) (auto split: option.splits)

lemma fifo_overtaking:
  assumes "perform ops w = Some w'" and "ids_inv w"
    and "i < j" and "j < length (awaiting_queue (registry w))"
    and "awaiting_queue (registry w) ! j \<notin> set (awaiting_queue (registry w'))"
  shows "\<exists>before after v. ops = before @ after \<and> perform before w = Some v
           \<and> awaiting_queue (registry w) ! i \<notin> set (awaiting_queue (registry v))"
  using assms
proof (induction ops arbitrary: w i j)
  case Nil
  then show ?case by auto
next
  case (Cons operation rest)
  let ?q = "awaiting_queue (registry w)"
  from Cons.prems(1) obtain w1 where w1: "apply_operation operation w = Some w1"
    and rest: "perform rest w1 = Some w'"
    by (auto split: option.splits)
  from apply_operation_awaiting[OF w1 Cons.prems(2)] obtain k extra
    where q1: "awaiting_queue (registry w1) = drop k ?q @ extra"
      and new: "set extra \<inter> set ?q = {}"
    by blast
  have d: "distinct ?q"
    using Cons.prems(2) by (rule ids_inv_distinct_awaiting)
  have i: "i < length ?q"
    using Cons.prems(3,4) by simp
  show ?case
  proof (cases "i < k")
    case True
    have "?q ! i \<in> set (take k ?q)"
      using True i by (auto simp: in_set_conv_nth intro!: exI[of _ i])
    moreover have "set (take k ?q) \<inter> set (drop k ?q) = {}"
      using d by (metis append_take_drop_id distinct_append)
    ultimately have "?q ! i \<notin> set (drop k ?q)"
      by blast
    moreover have "?q ! i \<notin> set extra"
      using new i by (meson disjoint_iff nth_mem)
    ultimately have "?q ! i \<notin> set (awaiting_queue (registry w1))"
      by (simp add: q1)
    moreover have "perform [operation] w = Some w1"
      by (simp add: w1)
    ultimately show ?thesis
      by (intro exI[of _ "[operation]"] exI[of _ rest] exI[of _ w1]) simp
  next
    case False
    then have ki: "k \<le> i" by simp
    have lt: "i - k < length ?q - k" "j - k < length ?q - k"
      using ki i Cons.prems(3,4) by arith+
    have at_i: "awaiting_queue (registry w1) ! (i - k) = ?q ! i"
      using ki i by (simp add: q1 nth_append lt)
    have at_j: "awaiting_queue (registry w1) ! (j - k) = ?q ! j"
      using ki Cons.prems(3,4) by (simp add: q1 nth_append lt)
    have "\<exists>before after v. rest = before @ after \<and> perform before w1 = Some v
        \<and> awaiting_queue (registry w1) ! (i - k) \<notin> set (awaiting_queue (registry v))"
    proof (rule Cons.IH[OF rest])
      show "ids_inv w1"
        using w1 Cons.prems(2) by (rule apply_operation_ids_inv)
      show "i - k < j - k"
        using ki Cons.prems(3) by simp
      show "j - k < length (awaiting_queue (registry w1))"
        using ki Cons.prems(3,4) by (simp add: q1)
      show "awaiting_queue (registry w1) ! (j - k) \<notin> set (awaiting_queue (registry w'))"
        using Cons.prems(5) by (simp add: at_j)
    qed
    then obtain before after v where "rest = before @ after" and "perform before w1 = Some v"
      and "?q ! i \<notin> set (awaiting_queue (registry v))"
      unfolding at_i by blast
    then show ?thesis
      by (intro exI[of _ "operation # before"] exI[of _ after] exI[of _ v]) (simp add: w1)
  qed
qed

lemma promote_exit:
  "awaiting_queue (registry (promote w)) = [] \<or> available_tickets (registry (promote w)) \<le> 0"
  by (induction w rule: promote_cases) (auto simp: promote_stop promote_step)

subsection \<open>The driver's loops\<close>

lemma decrement_frame [simp]:
  "registry (decrement p w) = registry w"
  "id_no (heap (decrement p w) r) = id_no (heap w r)"
  "processing_time (heap (decrement p w) r) =
     processing_time (heap w r) - (if r = p then 1 else 0)"
  by (simp_all add: decrement_def)

lemma decrement_each_registry [simp]: "registry (decrement_each ps w) = registry w"
  by (induction ps arbitrary: w) simp_all

lemma decrement_each_id_no [simp]: "id_no (heap (decrement_each ps w) r) = id_no (heap w r)"
  by (induction ps arbitrary: w) simp_all

lemma decrement_each_time:
  "distinct ps \<Longrightarrow>
     processing_time (heap (decrement_each ps w) r) =
       processing_time (heap w r) - (if r \<in> set ps then 1 else 0)"
  by (induction ps arbitrary: w) auto

lemma ids_inv_decrement_each: "ids_inv (decrement_each ps w) = ids_inv w"
  by (simp add: ids_inv_def live_ids_def)

lemma report_detailed_frame [simp]:
  "registry (report_detailed a f w) = registry w"
  "heap (report_detailed a f w) = heap w"
  by (simp_all add: report_detailed_def logger_info_def)

lemma ids_inv_report_detailed: "ids_inv (report_detailed a f w) = ids_inv w"
  by (simp add: ids_inv_def live_ids_def)

lemma ids_inv_add_each: "ids_inv w \<Longrightarrow> ids_inv (add_each users w)"
  by (induction users arbitrary: w) (simp_all add: ids_inv_add)

lemma live_after_complete:
  assumes "ids_inv w" and "p \<in> set (assigned_list (registry w))"
  shows "set (assigned_list (registry (promote (released p w))))
       \<union> set (awaiting_queue (registry (promote (released p w))))
       = set (assigned_list (registry w)) \<union> set (awaiting_queue (registry w)) - {p}"
proof -
  let ?xs = "assigned_list (registry w)" and ?ys = "awaiting_queue (registry w)"
  have "distinct (map (\<lambda>r. id_no (heap w r)) (?xs @ ?ys))"
    using assms(1) unfolding ids_inv_def live_ids_def by blast
  then have "distinct (?xs @ ?ys)"
    unfolding distinct_map by blast
  then have "set (remove1 p ?xs) \<union> set ?ys = set ?xs \<union> set ?ys - {p}"
    using assms(2) by auto
  moreover have "set (take (promote_count (released p w)) ?ys)
      \<union> set (drop (promote_count (released p w)) ?ys) = set ?ys"
    by (metis append_take_drop_id set_append)
  ultimately show ?thesis
    by (simp add: promote_assigned promote_awaiting Un_assoc)
qed

lemma assigned_after_complete:
  assumes "q \<in> set (assigned_list (registry w))" and "q \<noteq> p"
  shows "q \<in> set (assigned_list (registry (promote (released p w))))"
  using assms by (simp add: promote_assigned)

lemma complete_each_active:
  assumes "ids_inv w" and "distinct ps" and "set ps \<subseteq> set (assigned_list (registry w))"
  shows "\<exists>w'. complete_each ps w = Inr w' \<and> ids_inv w'
       \<and> completed_list (registry w') = completed_list (registry w) @ ps
       \<and> set (assigned_list (registry w')) \<union> set (awaiting_queue (registry w'))
           = set (assigned_list (registry w)) \<union> set (awaiting_queue (registry w)) - set ps
       \<and> (\<forall>r. processing_time (heap w' r) = processing_time (heap w r))"
  using assms
proof (induction ps arbitrary: w)
  case Nil
  then show ?case by simp
next
  case (Cons p ps)
  let ?w1 = "promote (released p w)"
  have p: "p \<in> set (assigned_list (registry w))"
    using Cons.prems(3) by simp
  have c: "complete p w = Inr ?w1"
    using p by (rule complete_active)
  have inv1: "ids_inv ?w1"
    using Cons.prems(1) p by (intro ids_inv_promote ids_inv_released)
  have sub1: "set ps \<subseteq> set (assigned_list (registry ?w1))"
    using Cons.prems(2,3) by (auto intro!: assigned_after_complete)
  from Cons.IH[OF inv1 _ sub1] Cons.prems(2)
  obtain w' where w': "complete_each ps ?w1 = Inr w'" and "ids_inv w'"
    and "completed_list (registry w') = completed_list (registry ?w1) @ ps"
    and "set (assigned_list (registry w')) \<union> set (awaiting_queue (registry w'))
           = set (assigned_list (registry ?w1)) \<union> set (awaiting_queue (registry ?w1)) - set ps"
    and "\<forall>r. processing_time (heap w' r) = processing_time (heap ?w1 r)"
    by auto
  moreover have "complete_each (p # ps) w = Inr w'"
    by (simp add: c w')
  ultimately show ?case
    using live_after_complete[OF Cons.prems(1) p] by auto
qed

text \<open>What one tick does in a state whose live identifiers are pairwise distinct.\<close>
lemma tick_steps:
  assumes "ids_inv w"
  shows "\<exists>w1 finished w2.
       w1 = decrement_each (assigned_list (registry w)) w
     \<and> registry w1 = registry w
     \<and> (\<forall>p. processing_time (heap w1 p) =
              processing_time (heap w p) - (if p \<in> set (assigned_list (registry w)) then 1 else 0))
     \<and> finished = filter (\<lambda>p. processing_time (heap w1 p) \<le> 0) (assigned_list (registry w))
     \<and> complete_each finished w1 = Inr w2
     \<and> ids_inv w2
     \<and> completed_list (registry w2) = completed_list (registry w) @ finished
     \<and> distinct finished
     \<and> set finished \<inter>
           (set (assigned_list (registry w2)) \<union> set (awaiting_queue (registry w2))) = {}
     \<and> (\<forall>p. processing_time (heap w2 p) = processing_time (heap w1 p))
     \<and> tick users w =
           Inr (report_detailed (int (length users)) (int (length finished)) (add_each users w2))"
proof -
  let ?A = "assigned_list (registry w)"
  let ?w1 = "decrement_each ?A w"
  let ?fin = "filter (\<lambda>p. processing_time (heap ?w1 p) \<le> 0) ?A"
  have dA: "distinct ?A"
    using assms by (rule ids_inv_distinct_assigned)
  have inv1: "ids_inv ?w1"
    using assms by (simp add: ids_inv_decrement_each)
  have dfin: "distinct ?fin"
    using dA by simp
  have sub: "set ?fin \<subseteq> set (assigned_list (registry ?w1))"
    by auto
  from complete_each_active[OF inv1 dfin sub]
  obtain w2 where w2: "complete_each ?fin ?w1 = Inr w2" and inv2: "ids_inv w2"
    and grown: "completed_list (registry w2) = completed_list (registry ?w1) @ ?fin"
    and live: "set (assigned_list (registry w2)) \<union> set (awaiting_queue (registry w2))
        = set (assigned_list (registry ?w1)) \<union> set (awaiting_queue (registry ?w1)) - set ?fin"
    and time: "\<forall>r. processing_time (heap w2 r) = processing_time (heap ?w1 r)"
    by blast
  have "tick users w =
      Inr (report_detailed (int (length users)) (int (length ?fin)) (add_each users w2))"
    by (simp add: tick_def w2 Let_def)
  moreover have "set ?fin \<inter>
      (set (assigned_list (registry w2)) \<union> set (awaiting_queue (registry w2))) = {}"
    unfolding live by blast
  moreover have "\<forall>p. processing_time (heap ?w1 p) =
      processing_time (heap w p) - (if p \<in> set ?A then 1 else 0)"
    using dA by (simp add: decrement_each_time)
  moreover have "completed_list (registry w2) = completed_list (registry w) @ ?fin"
    using grown by simp
  ultimately show ?thesis
    using w2 inv2 dfin time by (intro exI[of _ ?w1] exI[of _ ?fin] exI[of _ w2]) simp
qed

lemma ids_inv_tick: "ids_inv w \<Longrightarrow> \<exists>w'. tick users w = Inr w' \<and> ids_inv w'"
  using tick_steps[of w users]
  by (auto simp: ids_inv_report_detailed intro: ids_inv_add_each)

lemma run_loop_ids_inv:
  "ids_inv w \<Longrightarrow> \<exists>w'. run_loop tick_interval generate n w = Inr w' \<and> ids_inv w'"
proof (induction tick_interval generate n w rule: run_loop.induct)
  case (1 tick_interval generate n w)
  show ?case
  proof (cases "tick_interval > 0")
    case False
    then show ?thesis
      using "1.prems" by (subst run_loop.simps) simp
  next
    case True
    from ids_inv_tick[OF "1.prems"] obtain w1
      where w1: "tick (generate n) w = Inr w1" and "ids_inv w1"
      by blast
    then have "\<exists>w'. run_loop (tick_interval - 1) generate (Suc n) w1 = Inr w' \<and> ids_inv w'"
      using True by (intro "1.IH") simp_all
    then show ?thesis
      using True w1 by (subst run_loop.simps) simp
  qed
qed

subsection \<open>Reading back what the writer wrote\<close>

lemmas reader_defs = process_char_def start_record_def start_field_def end_record_def
  save_field_def add_char_def

lemma read_plain:
  assumes "\<not> needs_quotes s"
  shows "fold process_char s \<lparr>reader_mode = IN_FIELD, field_read = f, row_read = r, rows_read = R\<rparr>
       = \<lparr>reader_mode = IN_FIELD, field_read = f @ s, row_read = r, rows_read = R\<rparr>"
  using assms by (induction s arbitrary: f) (simp_all add: needs_quotes_def reader_defs)

lemma read_double_quotes:
  "fold process_char (double_quotes s)
     \<lparr>reader_mode = IN_QUOTED_FIELD, field_read = f, row_read = r, rows_read = R\<rparr>
   = \<lparr>reader_mode = IN_QUOTED_FIELD, field_read = f @ s, row_read = r, rows_read = R\<rparr>"
  by (induction s arbitrary: f) (simp_all add: reader_defs)

lemma read_quoted:
  "fold process_char (quoted s)
     \<lparr>reader_mode = m, field_read = [], row_read = r, rows_read = R\<rparr>
   = \<lparr>reader_mode = QUOTE_IN_QUOTED_FIELD, field_read = s, row_read = r, rows_read = R\<rparr>"
  if "m = START_FIELD \<or> m = START_RECORD"
  using that by (auto simp: quoted_def read_double_quotes reader_defs)

text \<open>
  A field as the writer puts it, read from the start of a field: nothing is read of an
  empty field, an unquoted one leaves the reader inside the field, a quoted one behind
  its closing quote.
\<close>
lemma read_csv_field:
  assumes "m = START_FIELD \<or> m = START_RECORD"
  shows "fold process_char (csv_field s)
           \<lparr>reader_mode = m, field_read = [], row_read = r, rows_read = R\<rparr>
       = \<lparr>reader_mode = (if s = [] then m
                          else if needs_quotes s then QUOTE_IN_QUOTED_FIELD else IN_FIELD),
          field_read = s, row_read = r, rows_read = R\<rparr>"
proof (cases "needs_quotes s")
  case True
  then have "s \<noteq> []"
    by (auto simp: needs_quotes_def)
  with True show ?thesis
    using assms by (simp add: csv_field_def read_quoted)
next
  case False
  show ?thesis
  proof (cases s)
    case Nil
    then show ?thesis
      by (simp add: csv_field_def needs_quotes_def)
  next
    case (Cons c cs)
    then have plain: "\<not> (c = COMMA \<or> c = QUOTE \<or> c = CR \<or> c = LF)" and rest: "\<not> needs_quotes cs"
      using False by (auto simp: needs_quotes_def)
    have "process_char c \<lparr>reader_mode = m, field_read = [], row_read = r, rows_read = R\<rparr>
        = \<lparr>reader_mode = IN_FIELD, field_read = [c], row_read = r, rows_read = R\<rparr>"
      using assms plain by (auto simp: reader_defs)
    then show ?thesis
      using False Cons by (simp add: csv_field_def read_plain[OF rest])
  qed
qed

lemma read_comma:
  assumes "m = START_FIELD \<or> m = START_RECORD \<or> m = IN_FIELD \<or> m = QUOTE_IN_QUOTED_FIELD"
  shows "process_char COMMA \<lparr>reader_mode = m, field_read = s, row_read = r, rows_read = R\<rparr>
       = \<lparr>reader_mode = START_FIELD, field_read = [], row_read = r @ [s], rows_read = R\<rparr>"
  using assms by (auto simp: reader_defs)

lemma read_crlf:
  assumes "m = START_FIELD \<or> m = IN_FIELD \<or> m = QUOTE_IN_QUOTED_FIELD"
  shows "fold process_char [CR, LF]
           \<lparr>reader_mode = m, field_read = s, row_read = r, rows_read = R\<rparr>
       = \<lparr>reader_mode = START_RECORD, field_read = [], row_read = [], rows_read = R @ [r @ [s]]\<rparr>"
  using assms by (auto simp: reader_defs)

lemma read_fields:
  assumes "m = START_FIELD \<or> (m = START_RECORD \<and> (s \<noteq> [] \<or> rest \<noteq> []))"
  shows "fold process_char (join_fields (map csv_field (s # rest)) @ [CR, LF])
           \<lparr>reader_mode = m, field_read = [], row_read = r, rows_read = R\<rparr>
       = \<lparr>reader_mode = START_RECORD, field_read = [], row_read = [],
          rows_read = R @ [r @ s # rest]\<rparr>"
  using assms
proof (induction rest arbitrary: s m r)
  case Nil
  then have start: "m = START_FIELD \<or> m = START_RECORD" and "m = START_FIELD \<or> s \<noteq> []"
    by auto
  then have "fold process_char [CR, LF]
      \<lparr>reader_mode = (if s = [] then m
                         else if needs_quotes s then QUOTE_IN_QUOTED_FIELD else IN_FIELD),
        field_read = s, row_read = r, rows_read = R\<rparr>
    = \<lparr>reader_mode = START_RECORD, field_read = [], row_read = [], rows_read = R @ [r @ [s]]\<rparr>"
    by (intro read_crlf) auto
  then show ?case
    by (simp add: read_csv_field[OF start])
next
  case (Cons g gs)
  then have start: "m = START_FIELD \<or> m = START_RECORD"
    by auto
  have "process_char COMMA
      \<lparr>reader_mode = (if s = [] then m
                         else if needs_quotes s then QUOTE_IN_QUOTED_FIELD else IN_FIELD),
        field_read = s, row_read = r, rows_read = R\<rparr>
    = \<lparr>reader_mode = START_FIELD, field_read = [], row_read = r @ [s], rows_read = R\<rparr>"
    using start by (intro read_comma) auto
  then show ?case
    using Cons.IH[of START_FIELD g "r @ [s]"] by (simp add: read_csv_field[OF start])
qed

lemma read_writerow:
  "fold process_char (writerow row)
     \<lparr>reader_mode = START_RECORD, field_read = [], row_read = [], rows_read = R\<rparr>
   = \<lparr>reader_mode = START_RECORD, field_read = [], row_read = [], rows_read = R @ [row]\<rparr>"
proof (cases row)
  case Nil
  then show ?thesis
    by (simp add: writerow_def reader_defs)
next
  case (Cons s rest)
  show ?thesis
  proof (cases "row = [[]]")
    case True
    then show ?thesis
      by (simp add: writerow_def quoted_def reader_defs)
  next
    case False
    then have "s \<noteq> [] \<or> rest \<noteq> []"
      using Cons by auto
    then show ?thesis
      using False Cons read_fields[of START_RECORD s rest "[]" R] by (auto simp: writerow_def)
  qed
qed

lemma read_rows:
  "fold process_char (concat (map writerow rows))
     \<lparr>reader_mode = START_RECORD, field_read = [], row_read = [], rows_read = R\<rparr>
   = \<lparr>reader_mode = START_RECORD, field_read = [], row_read = [], rows_read = R @ rows\<rparr>"
  by (induction rows arbitrary: R) (simp_all add: read_writerow)

lemma csv_reader_writerows: "csv_reader (concat (map writerow rows)) = rows"
  by (simp add: csv_reader_def read_rows finish_def)

subsection \<open>Counting lines\<close>

lemma line_count_append [simp]: "line_count (a @ b) = line_count a + line_count b"
  by (simp add: line_count_def)

lemma line_count_Nil [simp]: "line_count [] = 0"
  by (simp add: line_count_def)

lemma line_count_double_quotes: "line_count (double_quotes s) = line_count s"
  by (induction s) (simp_all add: line_count_def)

lemma line_count_quoted: "line_count (quoted s) = line_count s"
proof -
  have "line_count [QUOTE] = 0"
    by (simp add: line_count_def)
  then show ?thesis
    using line_count_append[of "[QUOTE]" "double_quotes s @ [QUOTE]"]
    by (simp add: quoted_def line_count_double_quotes)
qed

lemma line_count_csv_field: "line_count (csv_field s) = line_count s"
  by (simp add: csv_field_def line_count_quoted)

lemma line_count_join_fields:
  "line_count (join_fields (map csv_field row)) = line_count (concat row)"
  by (induction row rule: join_fields.induct)
     (simp_all add: line_count_csv_field, simp add: line_count_def)

lemma line_count_writerow: "line_count (writerow row) = 1 + line_count (concat row)"
proof -
  have "line_count [CR, LF] = 1"
    by (simp add: line_count_def)
  then show ?thesis
    by (auto simp: writerow_def line_count_join_fields line_count_quoted)
qed

lemma line_count_writerows:
  "line_count (concat (map writerow rows)) = length rows + line_count (concat (concat rows))"
  by (induction rows) (simp_all add: line_count_writerow)

lemma line_count_none: "LF \<notin> set s \<Longrightarrow> line_count s = 0"
  by (induction s) (auto simp: line_count_def)

lemma save_writerows:
  "save str isoformat w =
     concat (map writerow
       (header # map (\<lambda>r. export_row str isoformat (heap w r)) (completed_list (registry w))))"
  by (simp add: save_def comp_def)

lemma line_count_save:
  "line_count (save str isoformat w) =
     length (completed_list (registry w)) + 1
     + line_count (concat (concat
         (map (\<lambda>r. export_row str isoformat (heap w r)) (completed_list (registry w)))))"
proof -
  have "line_count (concat header) = 0"
    by (simp add: header_def) (simp add: line_count_def)
  then show ?thesis
    unfolding save_writerows line_count_writerows by simp
qed

subsection \<open>The decimal strings are a faithful stand-in\<close>

lemma digit_inj: "a < 10 \<Longrightarrow> b < 10 \<Longrightarrow> digit a = digit b \<Longrightarrow> a = b"
proof -
  assume "a < 10" and "b < 10" and "digit a = digit b"
  moreover have "distinct ''0123456789''"
    by simp
  moreover have "length ''0123456789'' = 10"
    by simp
  ultimately show ?thesis
    unfolding digit_def by (metis nth_eq_iff_index_eq)
qed

lemma str_nat_not_Nil: "str_nat n \<noteq> []"
  by (subst str_nat.simps) simp

lemma str_nat_last: "last (str_nat n) = digit (n mod 10)"
  by (subst str_nat.simps) simp

lemma str_nat_butlast: "butlast (str_nat n) = (if n < 10 then [] else str_nat (n div 10))"
  by (subst str_nat.simps) simp

lemma str_nat_inj: "str_nat a = str_nat b \<Longrightarrow> a = b"
proof (induction a arbitrary: b rule: less_induct)
  case (less a)
  have "digit (a mod 10) = digit (b mod 10)"
    using less.prems by (metis str_nat_last)
  then have m: "a mod 10 = b mod 10"
    by (intro digit_inj) simp_all
  have bl: "(if a < 10 then [] else str_nat (a div 10)) = (if b < 10 then [] else str_nat (b div 10))"
    using less.prems by (metis str_nat_butlast)
  show ?case
  proof (cases "a < 10")
    case True
    then have "b < 10"
      using bl str_nat_not_Nil[of "b div 10"] by (auto split: if_splits)
    with True m show ?thesis by simp
  next
    case False
    then have "\<not> b < 10"
      using bl str_nat_not_Nil[of "a div 10"] by (auto split: if_splits)
    with False bl have "str_nat (a div 10) = str_nat (b div 10)"
      by simp
    moreover have "a div 10 < a"
      using False by simp
    ultimately have "a div 10 = b div 10"
      by (rule less.IH[rotated])
    with m show ?thesis
      by (metis div_mult_mod_eq)
  qed
qed

lemma sample_formats:
  "inj sample_str" "inj sample_isoformat" "\<forall>t. sample_isoformat t \<noteq> []"
  by (auto simp: inj_def sample_str_def sample_isoformat_def str_nat_not_Nil word_unat_eq_iff
           dest!: str_nat_inj)

section \<open>The claims\<close>

subsection \<open>Duplicate admission\<close>

text \<open>
  C6: when the identifier of the entity is already in the seen-identifier set,
  \<^verbatim>\<open>add\<close> returns normally and changes nothing but the log, to which it appends the
  rejection message: the active set, the waiting queue, the completed log, the seen set,
  the capacity, every entity and the clock are as before.
\<close>
theorem add_duplicate_rejected:
  assumes "id_no (heap w person) \<in> seen_ids (registry w)"
  shows "add person w = w\<lparr>logged := logged w @ [''You cannot add the same person twice'']\<rparr>
       \<and> assigned_list (registry (add person w)) = assigned_list (registry w)
       \<and> awaiting_queue (registry (add person w)) = awaiting_queue (registry w)
       \<and> completed_list (registry (add person w)) = completed_list (registry w)
       \<and> registry (add person w) = registry w
       \<and> heap (add person w) = heap w"
  using assms by (simp add: add_def logger_info_def)

theorem add_duplicate_rejected_witness:
  "id_no (heap (add 1 (demo_world 2)) 1) \<in> seen_ids (registry (add 1 (demo_world 2)))
   \<and> add 1 (add 1 (demo_world 2)) =
       (add 1 (demo_world 2))\<lparr>logged := [''You cannot add the same person twice'']\<rparr>
   \<and> assigned_list (registry (add 1 (add 1 (demo_world 2)))) = [1]
   \<and> awaiting_queue (registry (add 1 (add 1 (demo_world 2)))) = []
   \<and> completed_list (registry (add 1 (add 1 (demo_world 2)))) = []"
proof -
  have dup: "id_no (heap (add 1 (demo_world 2)) 1) \<in> seen_ids (registry (add 1 (demo_world 2)))"
    by (simp add: scenario_defs)
  have "logged (add 1 (demo_world 2)) = []"
       "assigned_list (registry (add 1 (demo_world 2))) = [1]"
       "awaiting_queue (registry (add 1 (demo_world 2))) = []"
       "completed_list (registry (add 1 (demo_world 2))) = []"
    by (simp_all add: scenario_defs)
  with dup add_duplicate_rejected[OF dup] show ?thesis
    by simp
qed

subsection \<open>Capacity\<close>

text \<open>
  C1: in every state reached from an empty registry of positive capacity by any sequence
  of \<^verbatim>\<open>add\<close>, \<^verbatim>\<open>complete\<close> of an active member and \<^verbatim>\<open>promote\<close>, the size of the
  active set lies between 0 and the capacity, the capacity is the one the registry was
  built with, and \<^verbatim>\<open>available_tickets\<close>, which is the capacity minus that size, is not
  negative.
\<close>
theorem capacity_bound:
  assumes "0 < lim" and "registry w0 = Registry_init lim" and "perform ops w0 = Some w"
  shows "0 \<le> int (length (assigned_list (registry w)))
       \<and> int (length (assigned_list (registry w))) \<le> lim
       \<and> limit (registry w) = lim
       \<and> available_tickets (registry w) = lim - int (length (assigned_list (registry w)))
       \<and> 0 \<le> available_tickets (registry w)"
proof -
  have "capacity_inv w0"
    using assms(1,2) by (simp add: capacity_inv_init)
  then have "capacity_inv w"
    using assms(3) by (rule perform_capacity_inv[rotated])
  moreover have "limit (registry w) = lim"
    using perform_limit[OF assms(3)] assms(2) by (simp add: Registry_init_def)
  ultimately show ?thesis
    by (simp add: capacity_inv_def available_tickets_def)
qed

theorem capacity_bound_witness:
  "(0::int) < 2 \<and> registry (demo_world 2) = Registry_init 2
   \<and> (\<exists>w. perform [Add 1, Add 2, Add 3, Complete 1, Promote, Add 4] (demo_world 2) = Some w
        \<and> assigned_list (registry w) = [2, 3]
        \<and> int (length (assigned_list (registry w))) \<le> 2
        \<and> available_tickets (registry w) = 0
        \<and> 0 \<le> available_tickets (registry w))"
proof -
  have r: "registry (demo_world 2) = Registry_init 2"
    by (simp add: demo_world_def)
  have "\<exists>w. perform [Add 1, Add 2, Add 3, Complete 1, Promote, Add 4] (demo_world 2) = Some w
        \<and> assigned_list (registry w) = [2, 3]"
    by (simp add: scenario_defs)
  then obtain w where w: "perform [Add 1, Add 2, Add 3, Complete 1, Promote, Add 4] (demo_world 2) = Some w"
    and a: "assigned_list (registry w) = [2, 3]"
    by blast
  have "(0::int) < 2" by simp
  from capacity_bound[OF this r w] a w r show ?thesis
    by auto
qed

subsection \<open>The seen-identifier set\<close>

text \<open>
  C2: in every state reached from an empty registry by any sequence of \<^verbatim>\<open>add\<close>,
  \<^verbatim>\<open>complete\<close> of an active member and \<^verbatim>\<open>promote\<close>, the seen-identifier set is exactly
  the set of identifiers of the entities in the active set together with those of the
  entities in the waiting queue.
\<close>
theorem seen_ids_exact:
  assumes "registry w0 = Registry_init lim" and "perform ops w0 = Some w"
  shows "seen_ids (registry w) =
           (\<lambda>r. id_no (heap w r)) ` set (assigned_list (registry w))
         \<union> (\<lambda>r. id_no (heap w r)) ` set (awaiting_queue (registry w))"
proof -
  have "ids_inv w"
    using assms(2) ids_inv_init[OF assms(1)] by (rule perform_ids_inv)
  then show ?thesis
    by (simp add: ids_inv_def live_ids_def)
qed

theorem seen_ids_exact_witness:
  "registry (demo_world 1) = Registry_init 1
   \<and> (\<exists>w. perform [Add 1, Add 2, Add 3, Add 2, Complete 1] (demo_world 1) = Some w
        \<and> assigned_list (registry w) = [2] \<and> awaiting_queue (registry w) = [3]
        \<and> seen_ids (registry w) =
             (\<lambda>r. id_no (heap w r)) ` set (assigned_list (registry w))
           \<union> (\<lambda>r. id_no (heap w r)) ` set (awaiting_queue (registry w)))"
proof -
  have r: "registry (demo_world 1) = Registry_init 1"
    by (simp add: demo_world_def)
  have "\<exists>w. perform [Add 1, Add 2, Add 3, Add 2, Complete 1] (demo_world 1) = Some w
        \<and> assigned_list (registry w) = [2] \<and> awaiting_queue (registry w) = [3]"
    by (simp add: scenario_defs)
  then obtain w where w: "perform [Add 1, Add 2, Add 3, Add 2, Complete 1] (demo_world 1) = Some w"
    and a: "assigned_list (registry w) = [2]" "awaiting_queue (registry w) = [3]"
    by blast
  from seen_ids_exact[OF r w] a w r show ?thesis
    by blast
qed

subsection \<open>Nobody waits while a slot is free\<close>

text \<open>
  C9: in every state reached from an empty registry (of positive capacity, as the data
  model and the start-up check have it) by any sequence of \<^verbatim>\<open>add\<close>, \<^verbatim>\<open>complete\<close> of
  an active member and \<^verbatim>\<open>promote\<close>, a non-empty waiting queue means that
  \<^verbatim>\<open>available_tickets\<close> is 0. Hence \<^verbatim>\<open>add\<close> of a newcomer, whose identifier is not yet
  seen, does not take the direct-assignment path there: the active set stays as it is
  and the newcomer is appended behind those already waiting.
\<close>
theorem waiting_implies_full:
  assumes "0 < lim" and "registry w0 = Registry_init lim" and "perform ops w0 = Some w"
    and "awaiting_queue (registry w) \<noteq> []"
  shows "available_tickets (registry w) = 0
       \<and> (\<forall>p. id_no (heap w p) \<notin> seen_ids (registry w) \<longrightarrow>
              assigned_list (registry (add p w)) = assigned_list (registry w)
            \<and> awaiting_queue (registry (add p w)) = awaiting_queue (registry w) @ [p])"
proof -
  have "capacity_inv w0"
    using assms(1,2) by (simp add: capacity_inv_init)
  then have "capacity_inv w"
    using assms(3) by (rule perform_capacity_inv[rotated])
  then have full: "available_tickets (registry w) = 0"
    using assms(4) by (simp add: capacity_inv_def)
  then show ?thesis
    by (simp add: add_fresh_registry)
qed

theorem waiting_implies_full_witness:
  "(0::int) < 1 \<and> registry (demo_world 1) = Registry_init 1
   \<and> (\<exists>w. perform [Add 1, Add 2] (demo_world 1) = Some w
        \<and> awaiting_queue (registry w) = [2]
        \<and> available_tickets (registry w) = 0
        \<and> id_no (heap w 3) \<notin> seen_ids (registry w)
        \<and> assigned_list (registry (add 3 w)) = assigned_list (registry w)
        \<and> awaiting_queue (registry (add 3 w)) = [2, 3])"
proof -
  have r: "registry (demo_world 1) = Registry_init 1"
    by (simp add: demo_world_def)
  have "\<exists>w. perform [Add 1, Add 2] (demo_world 1) = Some w
        \<and> awaiting_queue (registry w) = [2] \<and> id_no (heap w 3) \<notin> seen_ids (registry w)"
    by (simp add: scenario_defs)
  then obtain w where w: "perform [Add 1, Add 2] (demo_world 1) = Some w"
    and a: "awaiting_queue (registry w) = [2]" and n: "id_no (heap w 3) \<notin> seen_ids (registry w)"
    by blast
  have "(0::int) < 1" by simp
  from waiting_implies_full[OF this r w] a n w r show ?thesis
    by auto
qed

subsection \<open>Completion of an active entity\<close>

text \<open>
  C4: for an entity in the active set, \<^verbatim>\<open>complete\<close> returns normally, and its result is
  \<^verbatim>\<open>promote\<close> applied to a state in which the entity has status Completed and its
  completion time, is taken off the active set, has its identifier removed from the
  seen-identifier set and is appended to the completed log, the waiting queue untouched.
  In the final state the seen set and the completed log are those, the first \<open>k\<close>
  waiting entities have moved to the end of the active set, \<open>k\<close> being the smaller of
  the queue's length and the capacity free after the removal, and the entity is still
  Completed unless it also stood in the waiting queue. In particular, when the capacity
  was exactly exhausted and somebody waits, exactly one entity, the head of the queue,
  is promoted within the call.
\<close>
theorem complete_active_member:
  assumes "person \<in> set (assigned_list (registry w))"
  shows "\<exists>v w'. complete person w = Inr w' \<and> w' = promote v
       \<and> status (heap v person) = COMPLETED
       \<and> completed_at (heap v person) = Some (now_readings w (now_calls w))
       \<and> assigned_list (registry v) = remove1 person (assigned_list (registry w))
       \<and> awaiting_queue (registry v) = awaiting_queue (registry w)
       \<and> seen_ids (registry v) = seen_ids (registry w) - {id_no (heap w person)}
       \<and> completed_list (registry v) = completed_list (registry w) @ [person]
       \<and> seen_ids (registry w') = seen_ids (registry w) - {id_no (heap w person)}
       \<and> completed_list (registry w') = completed_list (registry w) @ [person]
       \<and> assigned_list (registry w') =
             remove1 person (assigned_list (registry w))
             @ take (min (length (awaiting_queue (registry w)))
                         (nat (available_tickets (registry w) + 1)))
                    (awaiting_queue (registry w))
       \<and> awaiting_queue (registry w') =
             drop (min (length (awaiting_queue (registry w)))
                       (nat (available_tickets (registry w) + 1)))
                  (awaiting_queue (registry w))
       \<and> (person \<notin> set (awaiting_queue (registry w)) \<longrightarrow>
             status (heap w' person) = COMPLETED)
       \<and> (available_tickets (registry w) = 0 \<and> awaiting_queue (registry w) \<noteq> [] \<longrightarrow>
             assigned_list (registry w') =
               remove1 person (assigned_list (registry w)) @ [hd (awaiting_queue (registry w))]
           \<and> awaiting_queue (registry w') = tl (awaiting_queue (registry w)))"
proof -
  let ?v = "released person w"
  let ?k = "min (length (awaiting_queue (registry w))) (nat (available_tickets (registry w) + 1))"
  have k: "promote_count ?v = ?k"
    using assms by (rule promote_count_released)
  have kept: "status (heap (promote ?v) person) = COMPLETED"
    if "person \<notin> set (awaiting_queue (registry w))"
  proof -
    have "person \<notin> set (take (promote_count ?v) (awaiting_queue (registry ?v)))"
      using that by (auto dest: in_set_takeD)
    then have "heap (promote ?v) person = heap ?v person"
      by (rule promote_heap_other)
    then show ?thesis by simp
  qed
  have one: "take ?k (awaiting_queue (registry w)) = [hd (awaiting_queue (registry w))]
      \<and> drop ?k (awaiting_queue (registry w)) = tl (awaiting_queue (registry w))"
    if "available_tickets (registry w) = 0" and "awaiting_queue (registry w) \<noteq> []"
    using that by (cases "awaiting_queue (registry w)") simp_all
  have "complete person w = Inr (promote ?v)"
    using assms by (rule complete_active)
  moreover have "assigned_list (registry (promote ?v)) =
      remove1 person (assigned_list (registry w)) @ take ?k (awaiting_queue (registry w))"
    by (simp add: promote_assigned k)
  moreover have "awaiting_queue (registry (promote ?v)) = drop ?k (awaiting_queue (registry w))"
    by (simp add: promote_awaiting k)
  ultimately show ?thesis
    using kept one by (intro exI[of _ ?v] exI[of _ "promote ?v"]) simp
qed

text \<open>
  Scenario A of the specification: capacity 2, entities 1, 2, 3 added in this order, so
  that 1 and 2 are active and 3 waits; completing 1 leaves 2 and 3 active and nobody
  waiting.
\<close>
theorem complete_active_member_witness:
  "assigned_list (registry (add 3 (add 2 (add 1 (demo_world 2))))) = [1, 2]
   \<and> awaiting_queue (registry (add 3 (add 2 (add 1 (demo_world 2))))) = [3]
   \<and> available_tickets (registry (add 3 (add 2 (add 1 (demo_world 2))))) = 0
   \<and> 1 \<in> set (assigned_list (registry (add 3 (add 2 (add 1 (demo_world 2))))))
   \<and> (\<exists>w'. complete 1 (add 3 (add 2 (add 1 (demo_world 2)))) = Inr w'
        \<and> assigned_list (registry w') = [2, 3]
        \<and> awaiting_queue (registry w') = []
        \<and> completed_list (registry w') = [1]
        \<and> seen_ids (registry w') = {2, 3}
        \<and> status (heap w' 1) = COMPLETED)"
proof -
  let ?w = "add 3 (add 2 (add 1 (demo_world 2)))"
  have a: "assigned_list (registry ?w) = [1, 2]"
    and q: "awaiting_queue (registry ?w) = [3]"
    and c: "completed_list (registry ?w) = []"
    and s: "seen_ids (registry ?w) = {1, 2, 3}"
    and i: "id_no (heap ?w 1) = 1"
    and f: "available_tickets (registry ?w) = 0"
    by (auto simp: scenario_defs)
  have m: "1 \<in> set (assigned_list (registry ?w))"
    unfolding a by simp
  have "{1, 2, 3} - {1::UUID} = {2, 3}"
    by auto
  with complete_active_member[OF m] a q c s i f show ?thesis
    by auto
qed

subsection \<open>Completion of an entity that is not active\<close>

text \<open>
  C5: \<^verbatim>\<open>complete\<close> on an entity that is not in the active set raises: the call ends
  with the error \<^verbatim>\<open>ValueError\<close> and never returns normally, and it is not a no-op, since
  the state at the raise differs from the state before the call. The failure can be
  told from the duplicate rejection of \<^verbatim>\<open>add\<close>: that one returns normally and appends
  its message to the log, this one is an exception and logs nothing.
\<close>
theorem complete_inactive_fails:
  assumes "person \<notin> set (assigned_list (registry w))"
  shows "\<exists>w'. complete person w = Inl (ValueError, w') \<and> w' \<noteq> w \<and> logged w' = logged w
       \<and> (\<forall>v. complete person w \<noteq> Inr v)
       \<and> (\<forall>q u. id_no (heap u q) \<in> seen_ids (registry u) \<longrightarrow>
              logged (add q u) = logged u @ [''You cannot add the same person twice''])"
proof -
  have "complete person w = Inl (ValueError, stamped person w)"
    using assms by (rule complete_inactive)
  moreover have "stamped person w \<noteq> w"
  proof
    assume "stamped person w = w"
    then have "now_calls (stamped person w) = now_calls w" by simp
    then show False by simp
  qed
  ultimately show ?thesis
    by (simp add: add_def logger_info_def)
qed

theorem complete_inactive_fails_witness:
  "3 \<notin> set (assigned_list (registry (add 1 (demo_world 2))))
   \<and> (\<exists>w'. complete 3 (add 1 (demo_world 2)) = Inl (ValueError, w')
        \<and> w' \<noteq> add 1 (demo_world 2) \<and> logged w' = [])
   \<and> logged (add 1 (add 1 (demo_world 2))) = [''You cannot add the same person twice'']"
proof -
  let ?w = "add 1 (demo_world 2)"
  have n: "3 \<notin> set (assigned_list (registry ?w))"
    and l: "logged ?w = []"
    and d: "id_no (heap ?w 1) \<in> seen_ids (registry ?w)"
    by (simp_all add: scenario_defs)
  from complete_inactive_fails[OF n] n l d show ?thesis
    by auto
qed

subsection \<open>What a failed completion leaves behind\<close>

text \<open>
  C10: when \<^verbatim>\<open>complete\<close> is called on an entity that is not in the active set, the
  entity's status is Completed and its completion time is set in the state at the raise,
  while the registry (active set, waiting queue, completed log, seen-identifier set,
  capacity) and every other entity are as before the call. In particular an entity of
  the waiting queue is still in the queue, with status Completed.
\<close>
theorem complete_inactive_not_atomic:
  assumes "person \<notin> set (assigned_list (registry w))"
  shows "\<exists>w'. complete person w = Inl (ValueError, w')
       \<and> status (heap w' person) = COMPLETED
       \<and> completed_at (heap w' person) = Some (now_readings w (now_calls w))
       \<and> registry w' = registry w
       \<and> assigned_list (registry w') = assigned_list (registry w)
       \<and> awaiting_queue (registry w') = awaiting_queue (registry w)
       \<and> completed_list (registry w') = completed_list (registry w)
       \<and> seen_ids (registry w') = seen_ids (registry w)
       \<and> (\<forall>r. r \<noteq> person \<longrightarrow> heap w' r = heap w r)
       \<and> (person \<in> set (awaiting_queue (registry w)) \<longrightarrow>
             person \<in> set (awaiting_queue (registry w')) \<and> status (heap w' person) = COMPLETED)"
proof -
  have "complete person w = Inl (ValueError, stamped person w)"
    using assms by (rule complete_inactive)
  then show ?thesis
    by simp
qed

theorem complete_inactive_not_atomic_witness:
  "2 \<notin> set (assigned_list (registry (add 2 (add 1 (demo_world 1)))))
   \<and> 2 \<in> set (awaiting_queue (registry (add 2 (add 1 (demo_world 1)))))
   \<and> status (heap (add 2 (add 1 (demo_world 1))) 2) = WAITING
   \<and> (\<exists>w'. complete 2 (add 2 (add 1 (demo_world 1))) = Inl (ValueError, w')
        \<and> status (heap w' 2) = COMPLETED
        \<and> completed_at (heap w' 2) = Some 103
        \<and> assigned_list (registry w') = [1]
        \<and> awaiting_queue (registry w') = [2]
        \<and> completed_list (registry w') = []
        \<and> seen_ids (registry w') = {1, 2}
        \<and> heap w' 1 = heap (add 2 (add 1 (demo_world 1))) 1)"
proof -
  let ?w = "add 2 (add 1 (demo_world 1))"
  have n: "2 \<notin> set (assigned_list (registry ?w))"
    and a: "assigned_list (registry ?w) = [1]"
    and q: "awaiting_queue (registry ?w) = [2]"
    and c: "completed_list (registry ?w) = []"
    and s: "seen_ids (registry ?w) = {1, 2}"
    and st: "status (heap ?w 2) = WAITING"
    and t: "now_readings ?w (now_calls ?w) = 103"
    by (auto simp: scenario_defs)
  from complete_inactive_not_atomic[OF n] n a q c s st t show ?thesis
    by auto
qed

subsection \<open>Promotion is first in, first out\<close>

text \<open>
  C3: \<^verbatim>\<open>promote\<close> moves the first \<open>k\<close> entities of the waiting queue, in their order,
  to the end of the active set and leaves the rest of the queue in order, where \<open>k\<close> is
  the smaller of the queue's length and the free capacity; every entity it moves is
  assigned (status Assigned, assignment time set); and it stops only when the queue is
  empty or no capacity is free. Consequently, in any run from an empty registry: when
  entity A stands in the waiting queue ahead of entity B (A was enqueued before B, and
  both were enqueued, not admitted directly), then in whatever later state B has left
  the queue, A has left it in that state or an earlier one of the run, so A is promoted
  no later than B.
\<close>
theorem promote_fifo:
  "awaiting_queue (registry (promote v)) =
       drop (promote_count v) (awaiting_queue (registry v))
   \<and> assigned_list (registry (promote v)) =
       assigned_list (registry v) @ take (promote_count v) (awaiting_queue (registry v))
   \<and> promote_count v =
       min (length (awaiting_queue (registry v))) (nat (available_tickets (registry v)))
   \<and> (\<forall>p \<in> set (take (promote_count v) (awaiting_queue (registry v))).
         status (heap (promote v) p) = ASSIGNED \<and> assigned_at (heap (promote v) p) \<noteq> None)
   \<and> (awaiting_queue (registry (promote v)) = [] \<or> available_tickets (registry (promote v)) \<le> 0)
   \<and> (\<forall>lim w0 ops1 w i j ops2 w'.
         registry w0 = Registry_init lim \<and> perform ops1 w0 = Some w
         \<and> i < j \<and> j < length (awaiting_queue (registry w))
         \<and> perform ops2 w = Some w'
         \<and> awaiting_queue (registry w) ! j \<notin> set (awaiting_queue (registry w'))
         \<longrightarrow> (\<exists>before after u. ops2 = before @ after \<and> perform before w = Some u
                \<and> awaiting_queue (registry w) ! i \<notin> set (awaiting_queue (registry u))))"
proof -
  have c1: "awaiting_queue (registry (promote v)) =
      drop (promote_count v) (awaiting_queue (registry v))"
    by (rule promote_awaiting)
  have c2: "assigned_list (registry (promote v)) =
      assigned_list (registry v) @ take (promote_count v) (awaiting_queue (registry v))"
    by (rule promote_assigned)
  have c3: "promote_count v =
      min (length (awaiting_queue (registry v))) (nat (available_tickets (registry v)))"
    by (rule promote_count_def)
  have c4: "\<forall>p \<in> set (take (promote_count v) (awaiting_queue (registry v))).
      status (heap (promote v) p) = ASSIGNED \<and> assigned_at (heap (promote v) p) \<noteq> None"
    using promote_status[of _ v] by blast
  have c5: "awaiting_queue (registry (promote v)) = []
      \<or> available_tickets (registry (promote v)) \<le> 0"
    by (rule promote_exit)
  have c6: "\<forall>lim w0 ops1 w i j ops2 w'.
         registry w0 = Registry_init lim \<and> perform ops1 w0 = Some w
         \<and> i < j \<and> j < length (awaiting_queue (registry w))
         \<and> perform ops2 w = Some w'
         \<and> awaiting_queue (registry w) ! j \<notin> set (awaiting_queue (registry w'))
         \<longrightarrow> (\<exists>before after u. ops2 = before @ after \<and> perform before w = Some u
                \<and> awaiting_queue (registry w) ! i \<notin> set (awaiting_queue (registry u)))"
  proof (intro allI impI)
    fix lim w0 ops1 w i j ops2 w'
    assume h: "registry w0 = Registry_init lim \<and> perform ops1 w0 = Some w
         \<and> i < j \<and> j < length (awaiting_queue (registry w))
         \<and> perform ops2 w = Some w'
         \<and> awaiting_queue (registry w) ! j \<notin> set (awaiting_queue (registry w'))"
    then have "ids_inv w"
      using perform_ids_inv[of ops1 w0 w] ids_inv_init[of w0 lim] by blast
    with h show "\<exists>before after u. ops2 = before @ after \<and> perform before w = Some u
        \<and> awaiting_queue (registry w) ! i \<notin> set (awaiting_queue (registry u))"
      using fifo_overtaking[of ops2 w w' i j] by blast
  qed
  from c1 c2 c3 c4 c5 c6 show ?thesis
    by (intro conjI)
qed

theorem promote_fifo_witness:
  "awaiting_queue (registry (promote
       ((demo_world 2)\<lparr>registry := (Registry_init 2)\<lparr>awaiting_queue := [5, 6, 7]\<rparr>\<rparr>))) = [7]
   \<and> assigned_list (registry (promote
       ((demo_world 2)\<lparr>registry := (Registry_init 2)\<lparr>awaiting_queue := [5, 6, 7]\<rparr>\<rparr>))) = [5, 6]
   \<and> status (heap (promote
       ((demo_world 2)\<lparr>registry := (Registry_init 2)\<lparr>awaiting_queue := [5, 6, 7]\<rparr>\<rparr>)) 6) = ASSIGNED
   \<and> registry (demo_world 1) = Registry_init 1
   \<and> perform [Add 1, Add 2, Add 3] (demo_world 1) = Some (add 3 (add 2 (add 1 (demo_world 1))))
   \<and> awaiting_queue (registry (add 3 (add 2 (add 1 (demo_world 1))))) = [2, 3]
   \<and> (\<exists>w'. perform [Complete 1, Complete 2] (add 3 (add 2 (add 1 (demo_world 1)))) = Some w'
         \<and> 3 \<notin> set (awaiting_queue (registry w')))
   \<and> (\<exists>before after u. [Complete 1, Complete 2] = before @ after
         \<and> perform before (add 3 (add 2 (add 1 (demo_world 1)))) = Some u
         \<and> 2 \<notin> set (awaiting_queue (registry u)))"
proof -
  let ?v = "(demo_world 2)\<lparr>registry := (Registry_init 2)\<lparr>awaiting_queue := [5, 6, 7]\<rparr>\<rparr>"
  let ?w = "add 3 (add 2 (add 1 (demo_world 1)))"
  note fifo = promote_fifo[of ?v]
  have k: "promote_count ?v = 2"
    by (simp add: promote_count_def scenario_defs)
  have v: "awaiting_queue (registry ?v) = [5, 6, 7]" "assigned_list (registry ?v) = []"
    by (simp_all add: scenario_defs)
  have "take 2 [5, 6, 7::nat] = [5, 6]" "drop 2 [5, 6, 7::nat] = [7]"
    by (simp_all add: numeral_2_eq_2)
  with fifo k v have moved: "awaiting_queue (registry (promote ?v)) = [7]"
    "assigned_list (registry (promote ?v)) = [5, 6]"
    "status (heap (promote ?v) 6) = ASSIGNED"
    by simp_all
  have r: "registry (demo_world 1) = Registry_init 1"
    by (simp add: demo_world_def)
  have w: "perform [Add 1, Add 2, Add 3] (demo_world 1) = Some ?w"
    by simp
  have q: "awaiting_queue (registry ?w) = [2, 3]"
    by (simp add: scenario_defs)
  have "\<exists>w'. perform [Complete 1, Complete 2] ?w = Some w'
      \<and> 3 \<notin> set (awaiting_queue (registry w'))"
    by (simp add: scenario_defs)
  then obtain w' where w': "perform [Complete 1, Complete 2] ?w = Some w'"
    and gone: "3 \<notin> set (awaiting_queue (registry w'))"
    by blast
  have pos: "(0::nat) < 1" "1 < length (awaiting_queue (registry ?w))"
    "awaiting_queue (registry ?w) ! 1 \<notin> set (awaiting_queue (registry w'))"
    using gone unfolding q by simp_all
  have "\<exists>before after u. [Complete 1, Complete 2] = before @ after
      \<and> perform before ?w = Some u
      \<and> awaiting_queue (registry ?w) ! 0 \<notin> set (awaiting_queue (registry u))"
    using fifo r w w' pos by blast
  then have "\<exists>before after u. [Complete 1, Complete 2] = before @ after
      \<and> perform before ?w = Some u \<and> 2 \<notin> set (awaiting_queue (registry u))"
    unfolding q by simp
  with moved r w q w' gone show ?thesis
    by blast
qed

subsection \<open>One tick of the driver\<close>

text \<open>
  C7: in the state the driver has reached after any number of ticks of a run that started
  with an empty registry, whatever batches the generator produced, the next tick does
  the following. It first lowers the remaining processing time of every entity of the
  active set by exactly 1, and of no other entity, leaving the registry as it is. It then
  takes as finished exactly the active entities whose time is at most 0 in that state,
  in the order of the active set, and completes them one after the other in this order:
  no completion fails, and the completed log grows by exactly the finished list. No
  entity is finished twice, none of the finished is active or waiting afterwards, and
  the completions change no processing time, so an entity promoted during the tick is
  neither counted nor completed in it. The batch is added and the report logged after
  that.
\<close>
theorem tick_completes_snapshot:
  assumes "registry w0 = Registry_init lim" and "run_loop ticks generate n w0 = Inr w"
  shows "\<exists>w1 finished w2.
       w1 = decrement_each (assigned_list (registry w)) w
     \<and> registry w1 = registry w
     \<and> (\<forall>p. processing_time (heap w1 p) =
              processing_time (heap w p) - (if p \<in> set (assigned_list (registry w)) then 1 else 0))
     \<and> finished = filter (\<lambda>p. processing_time (heap w1 p) \<le> 0) (assigned_list (registry w))
     \<and> complete_each finished w1 = Inr w2
     \<and> completed_list (registry w2) = completed_list (registry w) @ finished
     \<and> distinct finished
     \<and> set finished \<inter>
           (set (assigned_list (registry w2)) \<union> set (awaiting_queue (registry w2))) = {}
     \<and> (\<forall>p. processing_time (heap w2 p) = processing_time (heap w1 p))
     \<and> tick users w =
           Inr (report_detailed (int (length users)) (int (length finished)) (add_each users w2))"
proof -
  have "ids_inv w0"
    using assms(1) by (rule ids_inv_init)
  then have "ids_inv w"
    using run_loop_ids_inv[of w0 ticks generate n] assms(2) by auto
  from tick_steps[OF this, of users] show ?thesis
    by blast
qed

text \<open>
  Scenario B of the specification, capacity 1: the first tick admits entities 1 and 2,
  both with two ticks of work, so that 2 waits; after the second tick entity 1 has one
  tick left. The third tick brings it to 0, completes it, and entity 2 is promoted.
\<close>
theorem tick_completes_snapshot_witness:
  "registry (demo_world 1) = Registry_init 1
   \<and> (\<exists>w. run_loop 2 (\<lambda>k. if k = 0 then [1, 2] else []) 0 (demo_world 1) = Inr w
        \<and> assigned_list (registry w) = [1] \<and> awaiting_queue (registry w) = [2]
        \<and> completed_list (registry w) = []
        \<and> processing_time (heap w 1) = 1
        \<and> (\<exists>w1 w2. w1 = decrement_each [1] w
              \<and> processing_time (heap w1 1) = 0
              \<and> complete_each [1] w1 = Inr w2
              \<and> completed_list (registry w2) = [1]
              \<and> 1 \<notin> set (assigned_list (registry w2))
              \<and> tick [] w = Inr (report_detailed 0 1 w2)))"
proof -
  let ?G = "\<lambda>k::nat. if k = 0 then [1, 2::nat] else []"
  have r: "registry (demo_world 1) = Registry_init 1"
    by (simp add: demo_world_def)
  have "\<exists>w. run_loop 2 ?G 0 (demo_world 1) = Inr w
        \<and> assigned_list (registry w) = [1] \<and> awaiting_queue (registry w) = [2]
        \<and> completed_list (registry w) = []
        \<and> processing_time (heap w 1) = 1"
    by (simp add: run_loop.simps tick_def report_detailed_def decrement_def scenario_defs)
  then obtain w where run: "run_loop 2 ?G 0 (demo_world 1) = Inr w"
    and a: "assigned_list (registry w) = [1]" and q: "awaiting_queue (registry w) = [2]"
    and c: "completed_list (registry w) = []"
    and t: "processing_time (heap w 1) = 1"
    by blast
  from tick_completes_snapshot[OF r run, of "[]"] obtain w1 finished w2
    where w1: "w1 = decrement_each (assigned_list (registry w)) w"
      and time: "\<forall>p. processing_time (heap w1 p) =
          processing_time (heap w p) - (if p \<in> set (assigned_list (registry w)) then 1 else 0)"
      and fin: "finished = filter (\<lambda>p. processing_time (heap w1 p) \<le> 0) (assigned_list (registry w))"
      and w2: "complete_each finished w1 = Inr w2"
      and log: "completed_list (registry w2) = completed_list (registry w) @ finished"
      and out: "set finished \<inter>
           (set (assigned_list (registry w2)) \<union> set (awaiting_queue (registry w2))) = {}"
      and tk: "tick [] w =
           Inr (report_detailed (int (length ([]::nat list))) (int (length finished)) (add_each [] w2))"
    by blast
  have t1: "processing_time (heap w1 1) = 0"
    using time t unfolding a by simp
  have f1: "finished = [1]"
    unfolding fin a using t1 by simp
  have "1 \<notin> set (assigned_list (registry w2))"
    using out unfolding f1 by simp
  moreover have "tick [] w = Inr (report_detailed 0 1 w2)"
    using tk unfolding f1 by simp
  moreover have "w1 = decrement_each [1] w"
    using w1 unfolding a .
  moreover have "completed_list (registry w2) = [1]"
    using log unfolding f1 c by simp
  moreover have "complete_each [1] w1 = Inr w2"
    using w2 unfolding f1 .
  ultimately show ?thesis
    using r run a q c t t1 by blast
qed

subsection \<open>Export and re-import of the completed log\<close>

text \<open>
  C8, as stated, fails where a field holds a line break: the writer quotes the field and
  the record then spans more than one line. With one completed entity whose first name
  is \<open>A\<close>, line feed, \<open>B\<close>, the export has three lines, not two.
\<close>
theorem save_line_count_counterexample:
  "complete 1 (add 1 two_line_world) = Inr (promote (released 1 (add 1 two_line_world)))
   \<and> completed_list (registry (promote (released 1 (add 1 two_line_world)))) = [1]
   \<and> name (heap (promote (released 1 (add 1 two_line_world))) 1) = [CHR ''A'', LF, CHR ''B'']
   \<and> line_count (save sample_str sample_isoformat
         (promote (released 1 (add 1 two_line_world)))) = 3
   \<and> line_count (save sample_str sample_isoformat
         (promote (released 1 (add 1 two_line_world))))
       \<noteq> length (completed_list (registry (promote (released 1 (add 1 two_line_world))))) + 1"
proof -
  let ?w = "promote (released 1 (add 1 two_line_world))"
  have a: "1 \<in> set (assigned_list (registry (add 1 two_line_world)))"
    by (simp add: two_line_world_def scenario_defs)
  have c: "completed_list (registry ?w) = [1]"
    by (simp add: two_line_world_def released_def scenario_defs)
  have n: "name (heap ?w 1) = [CHR ''A'', LF, CHR ''B'']"
    by (simp add: two_line_world_def released_def scenario_defs)
  have "line_count (concat (export_row sample_str sample_isoformat (heap ?w 1))) = 1"
    by (simp add: export_row_def n)
       (simp add: two_line_world_def released_def scenario_defs timestamp_field_def
          sample_str_def sample_isoformat_def str_nat.simps digit_def line_count_def)
  then have "line_count (save sample_str sample_isoformat ?w) = 3"
    unfolding line_count_save c by simp
  then show ?thesis
    using complete_active[OF a] n unfolding c by simp
qed

text \<open>
  C8, amended: the export of a completed log with \<open>K\<close> entities consists of exactly
  \<open>K + 1\<close> CSV records, and reading the text back as CSV yields the header record with
  its seven names followed by one record per entity in completion order, each with
  the seven fields as stored: the identifier's string, name, surname, email, and for
  each of the three timestamps the empty string when it is unset and its \<^verbatim>\<open>isoformat\<close>
  string when it is set. Where \<^verbatim>\<open>str\<close> and \<^verbatim>\<open>isoformat\<close> are injective and
  \<^verbatim>\<open>isoformat\<close> never yields the empty string, as the library's are, equal records
  come from equal identifiers, names, surnames, emails and timestamps, so these are
  recovered exactly. The text has \<open>K + 1\<close> lines plus one for every line feed inside an
  exported field; so it has exactly \<open>K + 1\<close> lines when no exported field holds a line
  feed.
\<close>
theorem save_round_trip:
  "csv_reader (save str isoformat w) =
       header # map (\<lambda>r. export_row str isoformat (heap w r)) (completed_list (registry w))
   \<and> length (csv_reader (save str isoformat w)) = length (completed_list (registry w)) + 1
   \<and> header = [''Id_no'', ''Name'', ''Surname'', ''Email'', ''Registered'', ''Assigned'',
                ''Completed'']
   \<and> (\<forall>P. export_row str isoformat P =
          [str (id_no P), name P, surname P, email P,
           (case registered_at P of None \<Rightarrow> [] | Some t \<Rightarrow> isoformat t),
           (case assigned_at P of None \<Rightarrow> [] | Some t \<Rightarrow> isoformat t),
           (case completed_at P of None \<Rightarrow> [] | Some t \<Rightarrow> isoformat t)])
   \<and> (inj str \<and> inj isoformat \<and> (\<forall>t. isoformat t \<noteq> []) \<longrightarrow>
        (\<forall>P Q. export_row str isoformat P = export_row str isoformat Q \<longrightarrow>
           id_no P = id_no Q \<and> name P = name Q \<and> surname P = surname Q \<and> email P = email Q
         \<and> registered_at P = registered_at Q \<and> assigned_at P = assigned_at Q
         \<and> completed_at P = completed_at Q))
   \<and> line_count (save str isoformat w) =
        length (completed_list (registry w)) + 1
        + line_count (concat (concat
            (map (\<lambda>r. export_row str isoformat (heap w r)) (completed_list (registry w)))))
   \<and> ((\<forall>r \<in> set (completed_list (registry w)).
          LF \<notin> set (concat (export_row str isoformat (heap w r)))) \<longrightarrow>
        line_count (save str isoformat w) = length (completed_list (registry w)) + 1)"
proof -
  let ?rows = "map (\<lambda>r. export_row str isoformat (heap w r)) (completed_list (registry w))"
  have c1: "csv_reader (save str isoformat w) = header # ?rows"
    unfolding save_writerows by (rule csv_reader_writerows)
  have c2: "length (csv_reader (save str isoformat w)) = length (completed_list (registry w)) + 1"
    by (simp add: c1)
  have c3: "header = [''Id_no'', ''Name'', ''Surname'', ''Email'', ''Registered'', ''Assigned'',
                ''Completed'']"
    by (rule header_def)
  have c4: "\<forall>P. export_row str isoformat P =
          [str (id_no P), name P, surname P, email P,
           (case registered_at P of None \<Rightarrow> [] | Some t \<Rightarrow> isoformat t),
           (case assigned_at P of None \<Rightarrow> [] | Some t \<Rightarrow> isoformat t),
           (case completed_at P of None \<Rightarrow> [] | Some t \<Rightarrow> isoformat t)]"
    by (simp add: export_row_def timestamp_field_def)
  have ts: "x = y" if "inj isoformat" and "\<forall>t. isoformat t \<noteq> []"
    and "timestamp_field isoformat x = timestamp_field isoformat y" for x y
  proof -
    have "\<forall>t. [] \<noteq> isoformat t"
      using that(2) by metis
    then show ?thesis
      using that by (cases x; cases y) (auto simp: timestamp_field_def dest: injD)
  qed
  have c5: "inj str \<and> inj isoformat \<and> (\<forall>t. isoformat t \<noteq> []) \<longrightarrow>
        (\<forall>P Q. export_row str isoformat P = export_row str isoformat Q \<longrightarrow>
           id_no P = id_no Q \<and> name P = name Q \<and> surname P = surname Q \<and> email P = email Q
         \<and> registered_at P = registered_at Q \<and> assigned_at P = assigned_at Q
         \<and> completed_at P = completed_at Q)"
    using ts by (auto simp: export_row_def dest: injD)
  have c6: "line_count (save str isoformat w) =
        length (completed_list (registry w)) + 1 + line_count (concat (concat ?rows))"
    by (rule line_count_save)
  have "line_count (concat (concat ?rows)) = 0"
    if "\<forall>r \<in> set (completed_list (registry w)).
          LF \<notin> set (concat (export_row str isoformat (heap w r)))"
    using that by (intro line_count_none) auto
  then have c7: "(\<forall>r \<in> set (completed_list (registry w)).
          LF \<notin> set (concat (export_row str isoformat (heap w r)))) \<longrightarrow>
        line_count (save str isoformat w) = length (completed_list (registry w)) + 1"
    using c6 by simp
  from c1 c2 c3 c4 c5 c6 c7 show ?thesis
    by (intro conjI)
qed

theorem save_round_trip_witness:
  "inj sample_str \<and> inj sample_isoformat \<and> (\<forall>t. sample_isoformat t \<noteq> [])
   \<and> (\<exists>w. perform [Add 1, Add 2, Complete 2, Complete 1] (demo_world 2) = Some w
        \<and> completed_list (registry w) = [2, 1]
        \<and> LF \<notin> set (concat (export_row sample_str sample_isoformat (heap w 2)))
        \<and> LF \<notin> set (concat (export_row sample_str sample_isoformat (heap w 1)))
        \<and> csv_reader (save sample_str sample_isoformat w) =
             [[''Id_no'', ''Name'', ''Surname'', ''Email'', ''Registered'', ''Assigned'',
               ''Completed''],
              [''2'', ''Anna'', ''Nowak'', ''Anna.Nowak@gmail.com'', ''102'', ''103'', ''104''],
              [''1'', ''Anna'', ''Nowak'', ''Anna.Nowak@gmail.com'', ''100'', ''101'', ''105'']]
        \<and> line_count (save sample_str sample_isoformat w) = 3)"
proof -
  have "\<exists>w. perform [Add 1, Add 2, Complete 2, Complete 1] (demo_world 2) = Some w
        \<and> completed_list (registry w) = [2, 1]
        \<and> export_row sample_str sample_isoformat (heap w 2) =
            [''2'', ''Anna'', ''Nowak'', ''Anna.Nowak@gmail.com'', ''102'', ''103'', ''104'']
        \<and> export_row sample_str sample_isoformat (heap w 1) =
            [''1'', ''Anna'', ''Nowak'', ''Anna.Nowak@gmail.com'', ''100'', ''101'', ''105'']"
    by (simp add: scenario_defs export_row_def timestamp_field_def sample_str_def
          sample_isoformat_def str_nat.simps digit_def)
  then obtain w where w: "perform [Add 1, Add 2, Complete 2, Complete 1] (demo_world 2) = Some w"
    and c: "completed_list (registry w) = [2, 1]"
    and r2: "export_row sample_str sample_isoformat (heap w 2) =
            [''2'', ''Anna'', ''Nowak'', ''Anna.Nowak@gmail.com'', ''102'', ''103'', ''104'']"
    and r1: "export_row sample_str sample_isoformat (heap w 1) =
            [''1'', ''Anna'', ''Nowak'', ''Anna.Nowak@gmail.com'', ''100'', ''101'', ''105'']"
    by blast
  have l2: "LF \<notin> set (concat (export_row sample_str sample_isoformat (heap w 2)))"
    unfolding r2 by simp
  have l1: "LF \<notin> set (concat (export_row sample_str sample_isoformat (heap w 1)))"
    unfolding r1 by simp
  have clean: "\<forall>r \<in> set (completed_list (registry w)).
      LF \<notin> set (concat (export_row sample_str sample_isoformat (heap w r)))"
    unfolding c using l1 l2 by simp
  note rt = save_round_trip[of sample_str sample_isoformat w]
  have "csv_reader (save sample_str sample_isoformat w) =
      header # map (\<lambda>r. export_row sample_str sample_isoformat (heap w r))
                 (completed_list (registry w))"
    using rt by blast
  then have rows: "csv_reader (save sample_str sample_isoformat w) =
             [[''Id_no'', ''Name'', ''Surname'', ''Email'', ''Registered'', ''Assigned'',
               ''Completed''],
              [''2'', ''Anna'', ''Nowak'', ''Anna.Nowak@gmail.com'', ''102'', ''103'', ''104''],
              [''1'', ''Anna'', ''Nowak'', ''Anna.Nowak@gmail.com'', ''100'', ''101'', ''105'']]"
    unfolding c list.map r1 r2 header_def by simp
  have "line_count (save sample_str sample_isoformat w) = length (completed_list (registry w)) + 1"
    using rt clean by blast
  then have "line_count (save sample_str sample_isoformat w) = 3"
    unfolding c by simp
  with sample_formats w c l1 l2 rows show ?thesis
    by blast
qed

end
